theory Spec2Isabelle
  imports Main "HOL-Library.Sublist"
begin

section \<open>JavaScript string primitives\<close>

text \<open>
  Strings are character lists. The model is exact for ASCII text: \<open>toLowerCase\<close>
  maps \<open>A\<close>..\<open>Z\<close> to \<open>a\<close>..\<open>z\<close> and leaves every other character alone, and
  white space (\<open>\s\<close>, \<open>trim\<close>) is tab, line feed, vertical tab, form feed, carriage return
  and space.
\<close>

definition toLowerChar :: "char \<Rightarrow> char" where
  "toLowerChar c =
     (case map_of (zip ''ABCDEFGHIJKLMNOPQRSTUVWXYZ'' ''abcdefghijklmnopqrstuvwxyz'') c of
        Some d \<Rightarrow> d
      | None \<Rightarrow> c)"

definition toLowerCase :: "string \<Rightarrow> string" where
  "toLowerCase s = map toLowerChar s"

definition isSpace :: "char \<Rightarrow> bool" where
  "isSpace c = (c \<in> set [CHR 0x09, CHR 0x0A, CHR 0x0B, CHR 0x0C, CHR 0x0D, CHR '' ''])"

definition isDigit :: "char \<Rightarrow> bool" where
  "isDigit c = (c \<in> set ''0123456789'')"

definition trim :: "string \<Rightarrow> string" where
  "trim s = rev (dropWhile isSpace (rev (dropWhile isSpace s)))"

text \<open>\<open>s.startsWith(p)\<close> and \<open>s.endsWith(p)\<close>.\<close>

fun startsWith :: "string \<Rightarrow> string \<Rightarrow> bool" where
  "startsWith s [] = True"
| "startsWith [] (p # ps) = False"
| "startsWith (c # cs) (p # ps) = (c = p \<and> startsWith cs ps)"

definition endsWith :: "string \<Rightarrow> string \<Rightarrow> bool" where
  "endsWith s p = startsWith (rev s) (rev p)"

text \<open>\<open>s.includes(k)\<close>: \<open>k\<close> occurs in \<open>s\<close> as a contiguous substring.\<close>

fun includes_str :: "string \<Rightarrow> string \<Rightarrow> bool" where
  "includes_str [] k = (k = [])"
| "includes_str (c # cs) k = (startsWith (c # cs) k \<or> includes_str cs k)"

text \<open>
  \<open>s.replace(/[X]+/g, " ")\<close>: every maximal run of characters of the class becomes one
  space.
\<close>

function replaceRuns :: "(char \<Rightarrow> bool) \<Rightarrow> string \<Rightarrow> string" where
  "replaceRuns P [] = []"
| "replaceRuns P (c # cs) =
     (if P c then CHR '' '' # replaceRuns P (dropWhile P cs) else c # replaceRuns P cs)"
  by pat_completeness auto
termination
  by (relation "measure (\<lambda>(P, s). length s)") (auto simp: length_dropWhile_le le_imp_less_Suc)

text \<open>\<open>s.replace(/[<>:"/\\|?*]/g, "")\<close>: the characters no folder name may hold are removed.\<close>

definition isIllegalChar :: "char \<Rightarrow> bool" where
  "isIllegalChar c = (c \<in> set [CHR ''<'', CHR ''>'', CHR '':'', CHR 0x22, CHR ''/'', CHR 0x5C,
                                  CHR ''|'', CHR ''?'', CHR ''*''])"

definition removeIllegal :: "string \<Rightarrow> string" where
  "removeIllegal s = filter (\<lambda>c. \<not> isIllegalChar c) s"

text \<open>Decimal rendering of a number in a template literal.\<close>

fun showNat :: "nat \<Rightarrow> string" where
  "showNat n =
     (if n < 10 then [''0123456789'' ! n]
      else showNat (n div 10) @ [''0123456789'' ! (n mod 10)])"

declare showNat.simps [simp del]

definition showInt :: "int \<Rightarrow> string" where
  "showInt i = (if i < 0 then CHR ''-'' # showNat (nat (- i)) else showNat (nat i))"

subsection \<open>Facts about the string primitives\<close>

lemma toLowerChar_idem: "toLowerChar (toLowerChar c) = toLowerChar c"
  by (auto simp: toLowerChar_def)

lemma toLowerCase_idem: "toLowerCase (toLowerCase s) = toLowerCase s"
  by (simp add: toLowerCase_def toLowerChar_idem)

lemma startsWith_iff: "startsWith s k \<longleftrightarrow> (\<exists>t. s = k @ t)"
  by (induction s k rule: startsWith.induct) auto

lemma includes_str_iff: "includes_str s k \<longleftrightarrow> (\<exists>p t. s = p @ k @ t)"
proof (induction s)
  case Nil
  then show ?case by auto
next
  case (Cons c cs)
  show ?case
  proof
    assume "includes_str (c # cs) k"
    then consider "startsWith (c # cs) k" | "includes_str cs k" by auto
    then show "\<exists>p t. c # cs = p @ k @ t"
    proof cases
      case 1
      then obtain t where "c # cs = k @ t" by (auto simp: startsWith_iff)
      then have "c # cs = [] @ k @ t" by simp
      then show ?thesis by blast
    next
      case 2
      then obtain p t where "cs = p @ k @ t" using Cons.IH by auto
      then have "c # cs = (c # p) @ k @ t" by simp
      then show ?thesis by blast
    qed
  next
    assume "\<exists>p t. c # cs = p @ k @ t"
    then obtain p t where e: "c # cs = p @ k @ t" by blast
    show "includes_str (c # cs) k"
    proof (cases p)
      case Nil
      then have "startsWith (c # cs) k" using e by (auto simp: startsWith_iff)
      then show ?thesis by simp
    next
      case (Cons a p')
      then have "cs = p' @ k @ t" using e by simp
      then have "includes_str cs k" using Cons.IH by blast
      then show ?thesis by simp
    qed
  qed
qed

section \<open>Keyword matching (organizer.js)\<close>

text \<open>
  \<^verbatim>\<open>normalizeKeywords\<close>: every keyword is trimmed and the empty ones are dropped.
\<close>

definition normalizeKeywords :: "string list \<Rightarrow> string list" where
  "normalizeKeywords list = filter (\<lambda>k. k \<noteq> []) (map trim list)"

text \<open>
  \<^verbatim>\<open>normalizeString\<close>: lower case, \<open>-\<close> and \<open>_\<close> read as spaces, white space collapsed,
  the ends trimmed.
\<close>

definition normalizeString :: "string \<Rightarrow> string" where
  "normalizeString s =
     trim (replaceRuns isSpace
       (replaceRuns (\<lambda>c. c = CHR ''-'' \<or> c = CHR ''_'') (toLowerCase s)))"

text \<open>An entry of the flattened category list.\<close>

record catEntry =
  ent_main :: string
  ent_category :: string
  ent_keywords :: "string list"
  ent_matchAll :: bool

text \<open>
  \<^verbatim>\<open>matchesKeywords(ent, hay)\<close>: the keywords are normalised like the haystack, the ones
  that normalise to the empty string are dropped, and an entry left with no keyword
  matches nothing.
\<close>

definition matchesKeywords :: "catEntry \<Rightarrow> string \<Rightarrow> bool" where
  "matchesKeywords ent hay =
     (let ks = filter (\<lambda>k. k \<noteq> []) (map normalizeString (ent_keywords ent)) in
      if ks = [] then False
      else let H = normalizeString hay in
        if ent_matchAll ent then list_all (\<lambda>k. includes_str H k) ks
        else list_ex (\<lambda>k. includes_str H k) ks)"

text \<open>
  The scan \<^verbatim>\<open>for (const ent of spec) if (matchesKeywords(ent, hay)) { matched = ent; break; }\<close>.
\<close>

fun firstMatch :: "catEntry list \<Rightarrow> string \<Rightarrow> catEntry option" where
  "firstMatch [] hay = None"
| "firstMatch (ent # spec) hay =
     (if matchesKeywords ent hay then Some ent else firstMatch spec hay)"

text \<open>
  \<^verbatim>\<open>flattenMainCategories\<close>: the grouped configuration, flattened in its order; the older
  flat form \<^verbatim>\<open>cfg.categories\<close> (given as its entries, in the order \<^verbatim>\<open>Object.entries\<close> lists
  them) has no group and no \<^verbatim>\<open>matchAll\<close>.
\<close>

record subCategory =
  sub_name :: string
  sub_keywords :: "string list"
  sub_matchAll :: bool

record mainCategory =
  mc_name :: string
  mc_categories :: "subCategory list"

definition flattenGroup :: "mainCategory \<Rightarrow> catEntry list" where
  "flattenGroup m =
     map (\<lambda>c. \<lparr>ent_main = mc_name m, ent_category = sub_name c,
                ent_keywords = normalizeKeywords (sub_keywords c),
                ent_matchAll = sub_matchAll c\<rparr>) (mc_categories m)"

definition flattenMainCategories ::
  "mainCategory list \<Rightarrow> (string \<times> string list) list \<Rightarrow> catEntry list" where
  "flattenMainCategories mainCategories categories =
     (if mainCategories \<noteq> [] then concat (map flattenGroup mainCategories)
      else map (\<lambda>(cat, kws). \<lparr>ent_main = [], ent_category = cat,
                                ent_keywords = normalizeKeywords kws,
                                ent_matchAll = False\<rparr>) categories)"

section \<open>Node's \<^verbatim>\<open>path\<close> module (POSIX)\<close>

text \<open>
  The functions of \<^verbatim>\<open>path\<close> the program calls, after Node's POSIX implementation: the
  separator is \<open>/\<close>. Normalisation works on the segments between separators: empty
  segments and \<open>.\<close> vanish, \<open>..\<close> cancels the segment before it, and what is left of
  \<open>..\<close> at the front stays only in a relative path.
\<close>

definition isSlash :: "char \<Rightarrow> bool" where
  "isSlash c = (c = CHR ''/'')"

text \<open>\<open>s.split(d)\<close>: always at least one piece.\<close>

fun splitOn :: "char \<Rightarrow> string \<Rightarrow> string list" where
  "splitOn d [] = [[]]"
| "splitOn d (c # cs) =
     (if c = d then [] # splitOn d cs
      else (case splitOn d cs of [] \<Rightarrow> [[c]] | x # xs \<Rightarrow> (c # x) # xs))"

fun joinWith :: "string \<Rightarrow> string list \<Rightarrow> string" where
  "joinWith d [] = []"
| "joinWith d [x] = x"
| "joinWith d (x # y # ys) = x @ d @ joinWith d (y # ys)"

text \<open>
  Node's \<^verbatim>\<open>normalizeString\<close> of \<^verbatim>\<open>path\<close>, on segments; the result so far is kept reversed
  (its head is the last segment).
\<close>

fun normSegs :: "bool \<Rightarrow> string list \<Rightarrow> string list \<Rightarrow> string list" where
  "normSegs allowAboveRoot res [] = rev res"
| "normSegs allowAboveRoot res (s # ss) =
     (if s = [] \<or> s = ''.'' then normSegs allowAboveRoot res ss
      else if s = ''..'' then
        (case res of
           [] \<Rightarrow> normSegs allowAboveRoot (if allowAboveRoot then [''..''] else []) ss
         | r # rs \<Rightarrow>
             if r = ''..'' then
               normSegs allowAboveRoot (if allowAboveRoot then ''..'' # res else res) ss
             else normSegs allowAboveRoot rs ss)
      else normSegs allowAboveRoot (s # res) ss)"

definition path_normalize :: "string \<Rightarrow> string" where
  "path_normalize p =
     (if p = [] then ''.''
      else
        let isAbsolute = isSlash (hd p);
            trailingSeparator = isSlash (last p);
            q = joinWith ''/'' (normSegs (\<not> isAbsolute) [] (splitOn CHR ''/'' p))
        in if q = [] then (if isAbsolute then ''/'' else if trailingSeparator then ''./'' else ''.'')
           else (if isAbsolute then ''/'' else []) @ q @ (if trailingSeparator then ''/'' else []))"

definition path_join :: "string list \<Rightarrow> string" where
  "path_join args =
     (let parts = filter (\<lambda>a. a \<noteq> []) args in
      if parts = [] then ''.'' else path_normalize (joinWith ''/'' parts))"

text \<open>
  \<^verbatim>\<open>path.resolve\<close>: the arguments are taken from the right until one is absolute, the
  working directory last.
\<close>

fun resolveLoop :: "string list \<Rightarrow> string \<Rightarrow> string \<times> bool" where
  "resolveLoop [] resolvedPath = (resolvedPath, False)"
| "resolveLoop (p # ps) resolvedPath =
     (if p = [] then resolveLoop ps resolvedPath
      else if isSlash (hd p) then (p @ ''/'' @ resolvedPath, True)
      else resolveLoop ps (p @ ''/'' @ resolvedPath))"

definition resolveSegs :: "string \<Rightarrow> string list \<Rightarrow> string list \<times> bool" where
  "resolveSegs cwd args =
     (case resolveLoop (rev args @ [cwd]) [] of
        (resolvedPath, resolvedAbsolute) \<Rightarrow>
          (normSegs (\<not> resolvedAbsolute) [] (splitOn CHR ''/'' resolvedPath), resolvedAbsolute))"

definition path_resolve :: "string \<Rightarrow> string list \<Rightarrow> string" where
  "path_resolve cwd args =
     (case resolveSegs cwd args of
        (segs, resolvedAbsolute) \<Rightarrow>
          if resolvedAbsolute then ''/'' @ joinWith ''/'' segs
          else if segs \<noteq> [] then joinWith ''/'' segs else ''.'')"

definition path_dirname :: "string \<Rightarrow> string" where
  "path_dirname p =
     (if p = [] then ''.''
      else
        let r = dropWhile (\<lambda>c. \<not> isSlash c) (dropWhile isSlash (rev (tl p)))
        in if r = [] then (if isSlash (hd p) then ''/'' else ''.'')
           else if isSlash (hd p) \<and> length r = 1 then ''//''
           else take (length r) p)"

definition path_basename :: "string \<Rightarrow> string" where
  "path_basename p = rev (takeWhile (\<lambda>c. \<not> isSlash c) (dropWhile isSlash (rev p)))"

text \<open>
  \<^verbatim>\<open>path.basename(p, suffix)\<close>: the suffix is taken off the last component when it ends
  it and is not all of it.
\<close>

definition path_basename2 :: "string \<Rightarrow> string \<Rightarrow> string" where
  "path_basename2 p sfx =
     (if sfx \<noteq> [] \<and> length sfx \<le> length p then
        if sfx = p then []
        else
          let comp = path_basename p;
              start = length (dropWhile (\<lambda>c. \<not> isSlash c) (dropWhile isSlash (rev p)))
          in if endsWith comp sfx then
               (if length comp = length sfx then comp
                else take (length comp - length sfx) comp)
             else if endsWith sfx comp then drop start p
             else comp
      else path_basename p)"

definition path_extname :: "string \<Rightarrow> string" where
  "path_extname p =
     (let comp = path_basename p;
          e = takeWhile (\<lambda>c. c \<noteq> CHR ''.'') (rev comp)
      in if CHR ''.'' \<notin> set comp then []
         else if length e + 1 = length comp then []
         else if comp = ''..'' then []
         else CHR ''.'' # rev e)"

text \<open>
  \<^verbatim>\<open>path.relative(from, to)\<close>: both resolved, the common leading segments dropped, one
  \<open>..\<close> for every segment left of \<open>from\<close>.
\<close>

fun dropCommon :: "string list \<Rightarrow> string list \<Rightarrow> string list \<times> string list" where
  "dropCommon (x # xs) (y # ys) = (if x = y then dropCommon xs ys else (x # xs, y # ys))"
| "dropCommon xs ys = (xs, ys)"

definition path_relative :: "string \<Rightarrow> string \<Rightarrow> string \<Rightarrow> string" where
  "path_relative cwd from to =
     (if from = to then []
      else case dropCommon (fst (resolveSegs cwd [from])) (fst (resolveSegs cwd [to])) of
        (fs, ts) \<Rightarrow> joinWith ''/'' (replicate (length fs) ''..'' @ ts))"

section \<open>Classification (organizer.js, \<^verbatim>\<open>categorizeFile\<close>)\<close>

text \<open>
  Category matching: the file name first, then, when nothing matched and the option is on,
  the name of the parent folder. The second component says whether the parent folder
  gave the match.
\<close>

definition categoryMatch ::
  "catEntry list \<Rightarrow> bool \<Rightarrow> string \<Rightarrow> string \<Rightarrow> catEntry option \<times> bool" where
  "categoryMatch spec checkParentFolder fileName parentFolder =
     (case firstMatch spec (toLowerCase fileName) of
        Some ent \<Rightarrow> (Some ent, False)
      | None \<Rightarrow>
          if checkParentFolder \<and> parentFolder \<noteq> [] then
            (case firstMatch spec (normalizeString parentFolder) of
               Some ent \<Rightarrow> (Some ent, True)
             | None \<Rightarrow> (None, False))
          else (None, False))"

text \<open>The base relative target: \<open>main/category\<close>, \<open>category\<close>, or the fallback.\<close>

definition baseTargetRel :: "catEntry option \<Rightarrow> string" where
  "baseTargetRel matched =
     (case matched of
        Some ent \<Rightarrow>
          if ent_main ent \<noteq> [] then path_join [ent_main ent, ent_category ent]
          else ent_category ent
      | None \<Rightarrow> ''Miscellaneous'')"

text \<open>
  The keyword predicate as the specification words it, for comparison with
  \<^const>\<open>matchesKeywords\<close>: the trimmed, non-empty keywords themselves are looked for in the
  normalised haystack.
\<close>

definition spec_ruleSucceeds :: "catEntry \<Rightarrow> string \<Rightarrow> bool" where
  "spec_ruleSucceeds ent hay =
     (if ent_matchAll ent
      then list_all (\<lambda>k. includes_str (normalizeString hay) k)
             (normalizeKeywords (ent_keywords ent))
      else list_ex (\<lambda>k. includes_str (normalizeString hay) k)
             (normalizeKeywords (ent_keywords ent)))"

section \<open>The file system\<close>

text \<open>
  A file system is a tree: a file has a content and may be unreadable (reading it fails
  with \<open>EACCES\<close>), a directory lists its entries by name, in the order \<^verbatim>\<open>readdir\<close> reports
  them. A path is looked up by the segments of its resolved form, so \<open>.\<close>, \<open>..\<close> and
  repeated separators are resolved lexically; there are no links and one device only.
  The calls of \<^verbatim>\<open>fs\<close> that throw return their error code on the left.
\<close>

datatype errno =
  ENOENT | ENOTDIR | EEXIST | EISDIR | ENOTEMPTY | EINVAL | EACCES | EXDEV | ENOTSUP

datatype node = File string bool | Dir "(string \<times> node) list"

record filesys =
  fs_root :: node
  fs_cwd :: string

definition fsPath :: "filesys \<Rightarrow> string \<Rightarrow> string list" where
  "fsPath fs p = fst (resolveSegs (fs_cwd fs) [p])"

fun lookupPath :: "node \<Rightarrow> string list \<Rightarrow> node option" where
  "lookupPath n [] = Some n"
| "lookupPath n (s # ss) =
     (case n of
        File c r \<Rightarrow> None
      | Dir es \<Rightarrow> (case map_of es s of None \<Rightarrow> None | Some ch \<Rightarrow> lookupPath ch ss))"

text \<open>An entry is replaced where it stands; a new one goes to the end.\<close>

fun setEntry :: "'k \<Rightarrow> 'v \<Rightarrow> ('k \<times> 'v) list \<Rightarrow> ('k \<times> 'v) list" where
  "setEntry k v [] = [(k, v)]"
| "setEntry k v (e # es) = (if fst e = k then (k, v) # es else e # setEntry k v es)"

definition delEntry :: "'k \<Rightarrow> ('k \<times> 'v) list \<Rightarrow> ('k \<times> 'v) list" where
  "delEntry k es = filter (\<lambda>e. fst e \<noteq> k) es"

text \<open>
  \<open>putPath n p new\<close> puts \<open>new\<close> at \<open>p\<close>, whose parent must be a directory that exists;
  \<open>removePath n p\<close> takes away what is at \<open>p\<close>, if anything.
\<close>

fun putPath :: "node \<Rightarrow> string list \<Rightarrow> node \<Rightarrow> node option" where
  "putPath n [] new = Some new"
| "putPath n (s # ss) new =
     (case n of
        File c r \<Rightarrow> None
      | Dir es \<Rightarrow>
          (case (if ss = [] then Some new
                 else (case map_of es s of None \<Rightarrow> None | Some ch \<Rightarrow> putPath ch ss new)) of
             None \<Rightarrow> None
           | Some ch' \<Rightarrow> Some (Dir (setEntry s ch' es))))"

fun removePath :: "node \<Rightarrow> string list \<Rightarrow> node" where
  "removePath n [] = n"
| "removePath n (s # ss) =
     (case n of
        File c r \<Rightarrow> n
      | Dir es \<Rightarrow>
          if ss = [] then Dir (delEntry s es)
          else (case map_of es s of
                  None \<Rightarrow> n
                | Some ch \<Rightarrow> Dir (setEntry s (removePath ch ss) es)))"

definition existsSync :: "filesys \<Rightarrow> string \<Rightarrow> bool" where
  "existsSync fs p = (lookupPath (fs_root fs) (fsPath fs p) \<noteq> None)"

text \<open>\<^verbatim>\<open>fs.mkdirSync(p, { recursive: true })\<close>.\<close>

fun mkdirp :: "node \<Rightarrow> string list \<Rightarrow> errno + node" where
  "mkdirp n [] = (case n of File c r \<Rightarrow> Inl EEXIST | Dir es \<Rightarrow> Inr n)"
| "mkdirp n (s # ss) =
     (case n of
        File c r \<Rightarrow> Inl ENOTDIR
      | Dir es \<Rightarrow>
          (case mkdirp (case map_of es s of None \<Rightarrow> Dir [] | Some ch \<Rightarrow> ch) ss of
             Inl e \<Rightarrow> Inl e
           | Inr ch' \<Rightarrow> Inr (Dir (setEntry s ch' es))))"

definition mkdirSync :: "filesys \<Rightarrow> string \<Rightarrow> errno + filesys" where
  "mkdirSync fs p =
     (case mkdirp (fs_root fs) (fsPath fs p) of
        Inl e \<Rightarrow> Inl e
      | Inr root' \<Rightarrow> Inr (fs\<lparr>fs_root := root'\<rparr>))"

text \<open>
  \<^verbatim>\<open>fs.renameSync\<close>, as \<^verbatim>\<open>rename(2)\<close>: a file or an empty directory at the
  destination is replaced.
\<close>

definition moveNode :: "filesys \<Rightarrow> string list \<Rightarrow> string list \<Rightarrow> node \<Rightarrow> errno + filesys" where
  "moveNode fs s d n =
     (case putPath (removePath (fs_root fs) s) d n of
        None \<Rightarrow> Inl ENOENT
      | Some root' \<Rightarrow> Inr (fs\<lparr>fs_root := root'\<rparr>))"

definition renameSync :: "filesys \<Rightarrow> string \<Rightarrow> string \<Rightarrow> errno + filesys" where
  "renameSync fs src dest =
     (let s = fsPath fs src; d = fsPath fs dest in
      case lookupPath (fs_root fs) s of
        None \<Rightarrow> Inl ENOENT
      | Some n \<Rightarrow>
          if s = [] \<or> d = [] then Inl EINVAL
          else
            (case lookupPath (fs_root fs) (butlast d) of
               None \<Rightarrow> Inl ENOENT
             | Some (File c r) \<Rightarrow> Inl ENOTDIR
             | Some (Dir es) \<Rightarrow>
                 if s = d then Inr fs
                 else if prefix s d then Inl EINVAL
                 else
                   (case lookupPath (fs_root fs) d of
                      None \<Rightarrow> moveNode fs s d n
                    | Some (File c r) \<Rightarrow>
                        (case n of File c' r' \<Rightarrow> moveNode fs s d n | Dir es' \<Rightarrow> Inl ENOTDIR)
                    | Some (Dir ds) \<Rightarrow>
                        (case n of
                           File c' r' \<Rightarrow> Inl EISDIR
                         | Dir es' \<Rightarrow> if ds = [] then moveNode fs s d n else Inl ENOTEMPTY))))"

text \<open>\<^verbatim>\<open>fs.copyFileSync\<close>: the destination file is written, or overwritten.\<close>

definition copyFileSync :: "filesys \<Rightarrow> string \<Rightarrow> string \<Rightarrow> errno + filesys" where
  "copyFileSync fs src dest =
     (let s = fsPath fs src; d = fsPath fs dest in
      case lookupPath (fs_root fs) s of
        None \<Rightarrow> Inl ENOENT
      | Some (Dir es) \<Rightarrow> Inl EISDIR
      | Some (File c r) \<Rightarrow>
          if \<not> r then Inl EACCES
          else
            (case lookupPath (fs_root fs) d of
               Some (Dir ds) \<Rightarrow> Inl EISDIR
             | _ \<Rightarrow>
                 (case lookupPath (fs_root fs) (butlast d) of
                    None \<Rightarrow> Inl ENOENT
                  | Some (File c' r') \<Rightarrow> Inl ENOTDIR
                  | Some (Dir ps) \<Rightarrow>
                      (case putPath (fs_root fs) d (File c True) of
                         None \<Rightarrow> Inl ENOENT
                       | Some root' \<Rightarrow> Inr (fs\<lparr>fs_root := root'\<rparr>)))))"

definition unlinkSync :: "filesys \<Rightarrow> string \<Rightarrow> errno + filesys" where
  "unlinkSync fs p =
     (case lookupPath (fs_root fs) (fsPath fs p) of
        None \<Rightarrow> Inl ENOENT
      | Some (Dir es) \<Rightarrow> Inl EISDIR
      | Some (File c r) \<Rightarrow> Inr (fs\<lparr>fs_root := removePath (fs_root fs) (fsPath fs p)\<rparr>))"

text \<open>\<^verbatim>\<open>fs.rmSync(p, { recursive: true, force: true })\<close> never throws.\<close>

definition rmSync :: "filesys \<Rightarrow> string \<Rightarrow> filesys" where
  "rmSync fs p = fs\<lparr>fs_root := removePath (fs_root fs) (fsPath fs p)\<rparr>"

definition rmdirSync :: "filesys \<Rightarrow> string \<Rightarrow> errno + filesys" where
  "rmdirSync fs p =
     (case lookupPath (fs_root fs) (fsPath fs p) of
        None \<Rightarrow> Inl ENOENT
      | Some (File c r) \<Rightarrow> Inl ENOTDIR
      | Some (Dir es) \<Rightarrow>
          if es = [] then Inr (fs\<lparr>fs_root := removePath (fs_root fs) (fsPath fs p)\<rparr>)
          else Inl ENOTEMPTY)"

definition readdirSync :: "filesys \<Rightarrow> string \<Rightarrow> errno + (string \<times> node) list" where
  "readdirSync fs p =
     (case lookupPath (fs_root fs) (fsPath fs p) of
        None \<Rightarrow> Inl ENOENT
      | Some (File c r) \<Rightarrow> Inl ENOTDIR
      | Some (Dir es) \<Rightarrow> Inr es)"

definition isDirectory :: "node \<Rightarrow> bool" where
  "isDirectory n = (case n of Dir es \<Rightarrow> True | File c r \<Rightarrow> False)"

definition isFile :: "node \<Rightarrow> bool" where
  "isFile n = (case n of Dir es \<Rightarrow> False | File c r \<Rightarrow> True)"

text \<open>
  What is at a path, the entries of a directory left out: nothing, a file with its
  content, or a directory.
\<close>

fun shallow :: "node \<Rightarrow> node" where
  "shallow (File c r) = File c r"
| "shallow (Dir es) = Dir []"

definition kindAt :: "node \<Rightarrow> string list \<Rightarrow> node option" where
  "kindAt n q = map_option shallow (lookupPath n q)"

text \<open>
  A tree is well formed when no directory lists a name twice. The path of what is
  reached from a directory by some names, as the walks build it.
\<close>

fun wellFormed :: "node \<Rightarrow> bool" where
  "wellFormed (File c r) = True"
| "wellFormed (Dir es) = (distinct (map fst es) \<and> list_all (\<lambda>e. wellFormed (snd e)) es)"

definition pathBelow :: "string \<Rightarrow> string list \<Rightarrow> string" where
  "pathBelow dir names = foldl (\<lambda>d name. path_join [d, name]) dir names"

section \<open>Collision-free destination names\<close>

text \<open>
  \<^verbatim>\<open>uniqueDestPath(dir, file)\<close> (organizer.js and bpmutils.js, the same code) tries
  \<open>dir/file\<close> and then \<open>dir/base (2)ext\<close>, \<open>dir/base (3)ext\<close>, ... until a path does not
  exist. The loop ends because the candidates are different entries of one directory and
  a directory has finitely many entries; the facts below establish that.
\<close>

text \<open>\<^verbatim>\<open>parseInt(s, 10)\<close> on a string of digits.\<close>

definition digitVal :: "char \<Rightarrow> nat" where
  "digitVal c =
     (case map_of (zip ''0123456789'' [0, 1, 2, 3, 4, 5, 6, 7, 8, 9]) c of
        Some d \<Rightarrow> d
      | None \<Rightarrow> 0)"

definition parseDec :: "string \<Rightarrow> nat" where
  "parseDec s = foldl (\<lambda>a c. 10 * a + digitVal c) 0 s"

subsection \<open>Decimal numbers\<close>

lemma digitVal_digit: "n < 10 \<Longrightarrow> digitVal (''0123456789'' ! n) = n"
proof -
  assume "n < 10"
  then have "n \<in> {0, 1, 2, 3, 4, 5, 6, 7, 8, 9}" by auto
  then show ?thesis by (auto simp: digitVal_def)
qed

lemma parseDec_snoc: "parseDec (s @ [c]) = 10 * parseDec s + digitVal c"
  by (simp add: parseDec_def)

lemma parseDec_showNat: "parseDec (showNat n) = n"
proof (induction n rule: showNat.induct)
  case (1 n)
  show ?case
  proof (cases "n < 10")
    case True
    then have "showNat n = [''0123456789'' ! n]" by (subst showNat.simps) simp
    then show ?thesis using True digitVal_digit [of n] by (simp add: parseDec_def)
  next
    case False
    then have s: "showNat n = showNat (n div 10) @ [''0123456789'' ! (n mod 10)]"
      by (subst showNat.simps) simp
    have "parseDec (showNat n) = 10 * parseDec (showNat (n div 10)) + digitVal (''0123456789'' ! (n mod 10))"
      by (simp only: s parseDec_snoc)
    also have "\<dots> = 10 * (n div 10) + n mod 10"
      using 1 False digitVal_digit [of "n mod 10"] by simp
    finally show ?thesis by simp
  qed
qed

lemma showNat_inj: "showNat m = showNat n \<Longrightarrow> m = n"
  by (metis parseDec_showNat)

lemma digit_nth_isDigit: "n < 10 \<Longrightarrow> ''0123456789'' ! n \<in> set ''0123456789''"
  by (rule nth_mem) simp

lemma showNat_digits: "set (showNat n) \<subseteq> set ''0123456789''"
proof (induction n rule: showNat.induct)
  case (1 n)
  show ?case
  proof (cases "n < 10")
    case True
    then have "showNat n = [''0123456789'' ! n]" by (subst showNat.simps) simp
    then show ?thesis using digit_nth_isDigit [OF True] by simp
  next
    case False
    then have s: "showNat n = showNat (n div 10) @ [''0123456789'' ! (n mod 10)]"
      by (subst showNat.simps) simp
    have "''0123456789'' ! (n mod 10) \<in> set ''0123456789''"
      by (rule digit_nth_isDigit) simp
    then show ?thesis using 1 False by (simp only: s) simp
  qed
qed

subsection \<open>Segments of joined and resolved paths\<close>

lemma splitOn_nonempty: "splitOn d s \<noteq> []"
  by (induction s) (auto split: list.splits)

lemma splitOn_append: "splitOn d (a @ d # b) = splitOn d a @ splitOn d b"
  by (induction a) (auto split: list.splits simp: splitOn_nonempty)

lemma splitOn_none: "d \<notin> set s \<Longrightarrow> splitOn d s = [s]"
  by (induction s) auto

lemma splitOn_no_sep: "x \<in> set (splitOn d s) \<Longrightarrow> d \<notin> set x"
  by (induction s arbitrary: x) (auto split: list.splits if_splits)

lemma joinWith_snoc: "xs \<noteq> [] \<Longrightarrow> joinWith d (xs @ [x]) = joinWith d xs @ d @ x"
  by (induction d xs rule: joinWith.induct) auto

lemma normSegs_append:
  "normSegs a res (xs @ ys) = normSegs a (rev (normSegs a res xs)) ys"
  by (induction xs arbitrary: res) (auto split: list.splits)

text \<open>A segment that normalisation keeps: not empty, not \<open>.\<close> or \<open>..\<close>, no separator.\<close>

definition plainSeg :: "string \<Rightarrow> bool" where
  "plainSeg nm = (nm \<noteq> [] \<and> nm \<noteq> ''.'' \<and> nm \<noteq> ''..'' \<and> CHR ''/'' \<notin> set nm)"

lemma normSegs_plain_snoc:
  "plainSeg nm \<Longrightarrow> normSegs a res (xs @ [nm]) = normSegs a res xs @ [nm]"
  by (simp add: normSegs_append plainSeg_def)

lemma normSegs_plain_snoc2:
  "plainSeg nm \<Longrightarrow> normSegs a res (xs @ [nm, []]) = normSegs a res xs @ [nm]"
  by (simp add: normSegs_append plainSeg_def)

lemma last_splitOn:
  "d \<notin> set nm \<Longrightarrow> B = [] \<or> (\<exists>C. B = C @ [d]) \<Longrightarrow> last (splitOn d (B @ nm)) = nm"
  by (auto simp: splitOn_none splitOn_append splitOn_nonempty)

lemma path_join_plain:
  assumes "plainSeg nm"
  shows "\<exists>B. path_join [dir, nm] = B @ nm \<and> (B = [] \<or> (\<exists>C. B = C @ ''/''))"
proof -
  define P where "P = (if dir = [] then nm else dir @ ''/'' @ nm)"
  have nm: "nm \<noteq> []" "CHR ''/'' \<notin> set nm" using assms by (auto simp: plainSeg_def)
  have j: "path_join [dir, nm] = path_normalize P"
    using nm by (auto simp: path_join_def P_def)
  have Pne: "P \<noteq> []" using nm by (simp add: P_def)
  have lastP: "last P = last nm" using nm by (simp add: P_def)
  have "last nm \<in> set nm" using nm(1) by (rule last_in_set)
  then have "last nm \<noteq> CHR ''/''" using nm(2) by metis
  then have notrail: "\<not> isSlash (last P)" using lastP by (simp add: isSlash_def)
  obtain S where S: "splitOn CHR ''/'' P = S @ [nm]"
  proof (cases "dir = []")
    case True
    then have "splitOn CHR ''/'' P = [] @ [nm]" using nm by (simp add: P_def splitOn_none)
    then show ?thesis using that by blast
  next
    case False
    then have "splitOn CHR ''/'' P = splitOn CHR ''/'' dir @ [nm]"
      using nm by (simp add: P_def splitOn_append splitOn_none)
    then show ?thesis using that by blast
  qed
  define Z where "Z = normSegs (\<not> isSlash (hd P)) [] S"
  have segs: "normSegs (\<not> isSlash (hd P)) [] (splitOn CHR ''/'' P) = Z @ [nm]"
    by (simp add: S Z_def normSegs_plain_snoc [OF assms])
  have q: "joinWith ''/'' (Z @ [nm]) = (if Z = [] then nm else joinWith ''/'' Z @ ''/'' @ nm)"
    by (simp add: joinWith_snoc)
  then have qne: "joinWith ''/'' (Z @ [nm]) \<noteq> []" using nm by auto
  have "path_normalize P = (if isSlash (hd P) then ''/'' else []) @ joinWith ''/'' (Z @ [nm])"
    using Pne notrail qne segs by (simp add: path_normalize_def Let_def)
  then have r: "path_join [dir, nm] =
      ((if isSlash (hd P) then ''/'' else []) @ (if Z = [] then [] else joinWith ''/'' Z @ ''/'')) @ nm"
    using j q by simp
  let ?B = "(if isSlash (hd P) then ''/'' else []) @ (if Z = [] then [] else joinWith ''/'' Z @ ''/'')"
  have "?B = [] \<or> (\<exists>C. ?B = C @ ''/'')" by auto
  with r show ?thesis by blast
qed

lemma resolveSegs_plain_last:
  assumes "plainSeg nm" and p: "p = B @ nm" and B: "B = [] \<or> (\<exists>C. B = C @ ''/'')"
  shows "\<exists>W. fst (resolveSegs cwd [p]) = W @ [nm]"
proof -
  have nm: "nm \<noteq> []" "CHR ''/'' \<notin> set nm" using assms by (auto simp: plainSeg_def)
  have pne: "p \<noteq> []" using p nm by simp
  obtain S where S: "splitOn CHR ''/'' p = S @ [nm]"
  proof -
    from B show ?thesis
    proof
      assume "B = []"
      then have "splitOn CHR ''/'' p = [] @ [nm]" using p nm by (simp add: splitOn_none)
      then show ?thesis using that by blast
    next
      assume "\<exists>C. B = C @ ''/''"
      then obtain C where "B = C @ ''/''" by blast
      then have "splitOn CHR ''/'' p = splitOn CHR ''/'' C @ [nm]"
        using p nm by (simp add: splitOn_append splitOn_none)
      then show ?thesis using that by blast
    qed
  qed
  have sp: "splitOn CHR ''/'' (p @ ''/'') = S @ [nm, []]"
    using splitOn_append [of "CHR ''/''" p "[]"] S by simp
  obtain rp ab where rl: "resolveLoop (rev [p] @ [cwd]) [] = (rp, ab)" by (cases "resolveLoop (rev [p] @ [cwd]) []")
  have "\<exists>X. splitOn CHR ''/'' rp = X @ [nm, []]"
  proof (cases "isSlash (hd p)")
    case True
    then have "rp = p @ ''/''" using rl pne by simp
    then show ?thesis using sp by blast
  next
    case False
    show ?thesis
    proof (cases "cwd = []")
      case True
      then have "rp = p @ ''/''" using rl pne False by simp
      then show ?thesis using sp by blast
    next
      case cne: False
      then have "rp = cwd @ ''/'' @ p @ ''/''" using rl pne False by (auto split: if_splits)
      then have "splitOn CHR ''/'' rp = splitOn CHR ''/'' cwd @ S @ [nm, []]"
        using splitOn_append [of "CHR ''/''" cwd "p @ ''/''"] sp by simp
      then have "splitOn CHR ''/'' rp = (splitOn CHR ''/'' cwd @ S) @ [nm, []]" by simp
      then show ?thesis by blast
    qed
  qed
  then obtain X where X: "splitOn CHR ''/'' rp = X @ [nm, []]" by blast
  have "fst (resolveSegs cwd [p]) = normSegs (\<not> ab) [] X @ [nm]"
    using rl X by (simp add: resolveSegs_def normSegs_plain_snoc2 [OF assms(1)])
  then show ?thesis by blast
qed

lemma fsPath_join_plain:
  "plainSeg nm \<Longrightarrow> \<exists>W. fsPath fs (path_join [dir, nm]) = W @ [nm]"
  using path_join_plain [of nm dir] resolveSegs_plain_last [of nm] unfolding fsPath_def by blast

subsection \<open>A tree has finitely many paths\<close>

lemma finite_paths: "finite {ss. lookupPath n ss \<noteq> None}"
proof (induction n)
  case (File c r)
  have "{ss. lookupPath (File c r) ss \<noteq> None} \<subseteq> {[]}"
  proof
    fix ss assume "ss \<in> {ss. lookupPath (File c r) ss \<noteq> None}"
    then show "ss \<in> {[]}" by (cases ss) auto
  qed
  then show ?case by (rule finite_subset) simp
next
  case (Dir es)
  let ?U = "\<Union>e \<in> set es. (#) (fst e) ` {ss. lookupPath (snd e) ss \<noteq> None}"
  have fin: "finite ?U"
  proof (rule finite_UN_I)
    show "finite (set es)" by simp
  next
    fix e assume e: "e \<in> set es"
    have "snd e \<in> Basic_BNFs.snds e" by (cases e) simp
    then have "finite {ss. lookupPath (snd e) ss \<noteq> None}" using Dir e by blast
    then show "finite ((#) (fst e) ` {ss. lookupPath (snd e) ss \<noteq> None})" by simp
  qed
  have "{ss. lookupPath (Dir es) ss \<noteq> None} \<subseteq> insert [] ?U"
  proof
    fix ss assume a: "ss \<in> {ss. lookupPath (Dir es) ss \<noteq> None}"
    show "ss \<in> insert [] ?U"
    proof (cases ss)
      case Nil then show ?thesis by simp
    next
      case (Cons s t)
      with a obtain ch where ch: "map_of es s = Some ch" "lookupPath ch t \<noteq> None"
        by (auto split: option.splits)
      then have "(s, ch) \<in> set es" by (auto dest: map_of_SomeD)
      then have "ss \<in> ?U" using ch Cons by force
      then show ?thesis by simp
    qed
  qed
  then show ?case using fin by (meson finite_insert finite_subset)
qed

subsection \<open>The candidates\<close>

lemma path_basename_no_slash: "CHR ''/'' \<notin> set (path_basename p)"
  by (auto simp: path_basename_def isSlash_def dest: set_takeWhileD)

lemma path_extname_subset: "set (path_extname p) \<subseteq> insert CHR ''.'' (set (path_basename p))"
  by (auto simp: path_extname_def Let_def dest: set_takeWhileD)

lemma path_extname_no_slash: "CHR ''/'' \<notin> set (path_extname p)"
  using path_extname_subset [of p] path_basename_no_slash [of p] by auto

lemma path_extname_endsWith:
  assumes "path_extname p \<noteq> []"
  shows "endsWith (path_basename p) (path_extname p)"
proof -
  let ?comp = "path_basename p"
  let ?e = "takeWhile (\<lambda>c. c \<noteq> CHR ''.'') (rev ?comp)"
  from assms have dot: "CHR ''.'' \<in> set ?comp" and ext: "path_extname p = CHR ''.'' # rev ?e"
    by (auto simp: path_extname_def Let_def split: if_splits)
  have ne: "dropWhile (\<lambda>c. c \<noteq> CHR ''.'') (rev ?comp) \<noteq> []"
    using dot by auto
  have "\<not> (hd (dropWhile (\<lambda>c. c \<noteq> CHR ''.'') (rev ?comp)) \<noteq> CHR ''.'')"
    using ne by (rule hd_dropWhile)
  then obtain rest where "dropWhile (\<lambda>c. c \<noteq> CHR ''.'') (rev ?comp) = CHR ''.'' # rest"
    using ne by (cases "dropWhile (\<lambda>c. c \<noteq> CHR ''.'') (rev ?comp)") auto
  then have "rev ?comp = ?e @ CHR ''.'' # rest"
    using takeWhile_dropWhile_id [of "\<lambda>c. c \<noteq> CHR ''.''" "rev ?comp"] by simp
  then have "rev ?comp = rev (path_extname p) @ rest" using ext by simp
  then show ?thesis unfolding endsWith_def startsWith_iff by blast
qed

lemma path_basename2_extname_no_slash:
  "CHR ''/'' \<notin> set (path_basename2 p (path_extname p))"
proof (cases "path_extname p = []")
  case True
  then show ?thesis by (simp add: path_basename2_def path_basename_no_slash)
next
  case False
  have t: "CHR ''/'' \<notin> set (take n (path_basename p))" for n
    using path_basename_no_slash [of p] by (auto dest: in_set_takeD)
  show ?thesis
    using path_extname_endsWith [OF False] path_basename_no_slash [of p] t
    by (simp add: path_basename2_def Let_def)
qed

text \<open>The name \<^verbatim>\<open>`${base} (${i})${ext}`\<close> and the candidate path made of it.\<close>

definition destName :: "string \<Rightarrow> nat \<Rightarrow> string" where
  "destName file i =
     path_basename2 file (path_extname file) @ '' ('' @ showNat i @ '')'' @ path_extname file"

lemma destName_plain: "plainSeg (destName file i)"
proof -
  have sp: "CHR '' '' \<in> set (destName file i)" by (simp add: destName_def)
  have "CHR ''/'' \<notin> set (showNat i)" using showNat_digits [of i] by auto
  then have ns: "CHR ''/'' \<notin> set (destName file i)"
    using path_basename2_extname_no_slash [of "file"] path_extname_no_slash [of "file"]
    by (simp add: destName_def)
  from sp have "destName file i \<noteq> []" "destName file i \<noteq> ''.''" "destName file i \<noteq> ''..''"
    by auto
  with ns show ?thesis by (simp add: plainSeg_def)
qed

lemma destName_inj: "destName file i = destName file j \<Longrightarrow> i = j"
  by (auto simp: destName_def dest: showNat_inj)

definition destCandidate :: "string \<Rightarrow> string \<Rightarrow> nat \<Rightarrow> string" where
  "destCandidate dir file i = path_join [dir, destName file i]"

lemma destCandidate_fsPath_inj:
  assumes "fsPath fs (destCandidate dir file i) = fsPath fs (destCandidate dir file j)"
  shows "i = j"
proof -
  obtain W where W: "fsPath fs (destCandidate dir file i) = W @ [destName file i]"
    using fsPath_join_plain [OF destName_plain] unfolding destCandidate_def by blast
  obtain V where V: "fsPath fs (destCandidate dir file j) = V @ [destName file j]"
    using fsPath_join_plain [OF destName_plain] unfolding destCandidate_def by blast
  from assms W V have "destName file i = destName file j" by simp
  then show ?thesis by (rule destName_inj)
qed

lemma finite_existing_candidates: "finite {i. existsSync fs (destCandidate dir file i)}"
proof -
  let ?h = "\<lambda>i. fsPath fs (destCandidate dir file i)"
  have "inj ?h" by (rule injI) (rule destCandidate_fsPath_inj)
  then have "finite (?h -` {ss. lookupPath (fs_root fs) ss \<noteq> None})"
    using finite_paths by (rule finite_vimageI [rotated])
  moreover have "{i. existsSync fs (destCandidate dir file i)} = ?h -` {ss. lookupPath (fs_root fs) ss \<noteq> None}"
    by (auto simp: existsSync_def)
  ultimately show ?thesis by simp
qed

text \<open>How many candidates from the \<open>i\<close>-th on exist: the measure of the loop.\<close>

definition laterTaken :: "filesys \<Rightarrow> string \<Rightarrow> string \<Rightarrow> nat \<Rightarrow> nat" where
  "laterTaken fs dir file i = card {j. i \<le> j \<and> existsSync fs (destCandidate dir file j)}"

lemma laterTaken_step:
  "laterTaken fs dir file (Suc i) < laterTaken fs dir file i
   \<or> (laterTaken fs dir file (Suc i) = laterTaken fs dir file i
        \<and> \<not> existsSync fs (destCandidate dir file i))"
proof (cases "existsSync fs (destCandidate dir file i)")
  case True
  have fin: "finite {j. i \<le> j \<and> existsSync fs (destCandidate dir file j)}"
    using finite_existing_candidates [of fs dir "file"] by (rule rev_finite_subset) auto
  have "i \<in> {j. i \<le> j \<and> existsSync fs (destCandidate dir file j)}"
    using True by simp
  moreover have "i \<notin> {j. Suc i \<le> j \<and> existsSync fs (destCandidate dir file j)}"
    by simp
  moreover have "{j. Suc i \<le> j \<and> existsSync fs (destCandidate dir file j)}
      \<subseteq> {j. i \<le> j \<and> existsSync fs (destCandidate dir file j)}"
    by auto
  ultimately have "{j. Suc i \<le> j \<and> existsSync fs (destCandidate dir file j)}
      \<subset> {j. i \<le> j \<and> existsSync fs (destCandidate dir file j)}"
    by blast
  then show ?thesis unfolding laterTaken_def using fin by (simp add: psubset_card_mono)
next
  case False
  have "{j. Suc i \<le> j \<and> existsSync fs (destCandidate dir file j)}
      = {j. i \<le> j \<and> existsSync fs (destCandidate dir file j)}"
  proof (rule Collect_cong)
    fix j
    show "(Suc i \<le> j \<and> existsSync fs (destCandidate dir file j))
        = (i \<le> j \<and> existsSync fs (destCandidate dir file j))"
    proof (cases "j = i")
      case True
      then show ?thesis using False by simp
    next
      case False
      then show ?thesis by auto
    qed
  qed
  then show ?thesis using False by (simp add: laterTaken_def)
qed

subsection \<open>The loop\<close>

function uniqueLoop :: "filesys \<Rightarrow> string \<Rightarrow> string \<Rightarrow> string \<Rightarrow> nat \<Rightarrow> string" where
  "uniqueLoop fs dir file candidate i =
     (if existsSync fs candidate
      then uniqueLoop fs dir file (destCandidate dir file i) (Suc i)
      else candidate)"
  by pat_completeness auto
termination
proof (relation "(\<lambda>(fs, dir, file, candidate, i). laterTaken fs dir file i) <*mlex*>
                 (\<lambda>(fs, dir, file, candidate, i). if existsSync fs candidate then 1 else 0 :: nat) <*mlex*> {}")
  show "wf ((\<lambda>(fs, dir, file, candidate, i). laterTaken fs dir file i) <*mlex*>
                 (\<lambda>(fs, dir, file, candidate, i). if existsSync fs candidate then 1 else 0 :: nat) <*mlex*> {})"
    by (simp add: wf_mlex)
next
  fix fs dir fl candidate i
  assume "existsSync fs candidate"
  then show "((fs, dir, fl, destCandidate dir fl i, Suc i), (fs, dir, fl, candidate, i))
      \<in> (\<lambda>(fs, dir, file, candidate, i). laterTaken fs dir file i) <*mlex*>
                 (\<lambda>(fs, dir, file, candidate, i). if existsSync fs candidate then 1 else 0 :: nat) <*mlex*> {}"
    using laterTaken_step [of fs dir fl i] by (auto simp: mlex_iff)
qed

definition uniqueDestPath :: "filesys \<Rightarrow> string \<Rightarrow> string \<Rightarrow> string" where
  "uniqueDestPath fs dir file = uniqueLoop fs dir file (path_join [dir, file]) 2"

declare uniqueLoop.simps [simp del]

text \<open>
  \<^verbatim>\<open>moveOrCopySync(src, dest, move)\<close> of organizer.js: a copy, or a rename that falls back
  to copy and delete across devices.
\<close>

definition moveOrCopySync :: "filesys \<Rightarrow> string \<Rightarrow> string \<Rightarrow> bool \<Rightarrow> errno + filesys" where
  "moveOrCopySync fs src dest move =
     (if \<not> move then copyFileSync fs src dest
      else
        (case renameSync fs src dest of
           Inr fs' \<Rightarrow> Inr fs'
         | Inl e \<Rightarrow>
             if e = EXDEV then
               (case copyFileSync fs src dest of
                  Inl e' \<Rightarrow> Inl e'
                | Inr fs' \<Rightarrow> unlinkSync fs' src)
             else Inl e))"

section \<open>Tempo and key folders (bpmutils.js)\<close>

text \<open>
  \<^verbatim>\<open>BPM_DIR_RE = /^(\d{2,3})\s*bpm$/i\<close>: two or three digits, white space, \<open>bpm\<close> in any
  case. The result is the group of digits.
\<close>

definition bpmDirDigits :: "string \<Rightarrow> string option" where
  "bpmDirDigits name =
     (let ds = takeWhile isDigit name; rest = dropWhile isDigit name in
      if (length ds = 2 \<or> length ds = 3) \<and> toLowerCase (dropWhile isSpace rest) = ''bpm''
      then Some ds else None)"

definition isBpmDirName :: "string \<Rightarrow> bool" where
  "isBpmDirName name = (bpmDirDigits name \<noteq> None)"

text \<open>
  \<^verbatim>\<open>KEY_DIR_RE = /^(?:[A-G](?:#|b)?)\s+(?:Maj|Min)$/i\<close>: a note letter, an optional
  accidental, white space, \<open>Maj\<close> or \<open>Min\<close>, in any case.
\<close>

definition isKeyDirName :: "string \<Rightarrow> bool" where
  "isKeyDirName name =
     (case name of
        [] \<Rightarrow> False
      | c # r \<Rightarrow>
          toLowerChar c \<in> set ''abcdefg'' \<and>
          (let r' = (case r of
                       [] \<Rightarrow> r
                     | x # xs \<Rightarrow> if x = CHR ''#'' \<or> toLowerChar x = CHR ''b'' then xs else r)
           in r' \<noteq> [] \<and> isSpace (hd r') \<and>
              (toLowerCase (dropWhile isSpace r') = ''maj'' \<or>
               toLowerCase (dropWhile isSpace r') = ''min'')))"

definition getParentBpmValue :: "string \<Rightarrow> nat option" where
  "getParentBpmValue filePath =
     (case bpmDirDigits (path_basename (path_dirname filePath)) of
        None \<Rightarrow> None
      | Some ds \<Rightarrow> Some (parseDec ds))"

lemma bpmDirDigits_length: "bpmDirDigits name = Some ds \<Longrightarrow> 2 < length name"
proof -
  assume "bpmDirDigits name = Some ds"
  then have l: "length (takeWhile isDigit name) = 2 \<or> length (takeWhile isDigit name) = 3"
    by (auto simp: bpmDirDigits_def Let_def split: if_splits)
  have "length (takeWhile isDigit name) + length (dropWhile isDigit name) = length name"
    by (metis length_append takeWhile_dropWhile_id)
  moreover have "dropWhile isDigit name \<noteq> []"
  proof
    assume "dropWhile isDigit name = []"
    then have "toLowerCase (dropWhile isSpace (dropWhile isDigit name)) = []"
      by (simp only: dropWhile.simps toLowerCase_def list.map)
    then have "bpmDirDigits name = None" by (simp add: bpmDirDigits_def Let_def)
    then show False using \<open>bpmDirDigits name = Some ds\<close> by simp
  qed
  ultimately show ?thesis using l by (cases "dropWhile isDigit name") auto
qed

lemma path_basename_length: "length (path_basename p) \<le> length p"
proof -
  have "length (path_basename p) \<le> length (dropWhile isSlash (rev p))"
    unfolding path_basename_def by (simp add: length_takeWhile_le)
  also have "\<dots> \<le> length (rev p)" by (rule length_dropWhile_le)
  finally show ?thesis by simp
qed

lemma path_dirname_shorter: "2 < length p \<Longrightarrow> length (path_dirname p) < length p"
proof -
  assume l: "2 < length p"
  let ?r = "dropWhile (\<lambda>c. \<not> isSlash c) (dropWhile isSlash (rev (tl p)))"
  have "length ?r \<le> length (dropWhile isSlash (rev (tl p)))" by (rule length_dropWhile_le)
  also have "\<dots> \<le> length (rev (tl p))" by (rule length_dropWhile_le)
  finally have r: "length ?r < length p" using l by simp
  show ?thesis using l r by (auto simp: path_dirname_def Let_def)
qed

text \<open>
  \<^verbatim>\<open>firstNonBpmAncestorDir\<close>: up from the file's directory, past every directory named as
  a tempo folder.
\<close>

function skipBpmDirs :: "string \<Rightarrow> string" where
  "skipBpmDirs dir =
     (if isBpmDirName (path_basename dir) \<and> path_dirname dir \<noteq> dir
      then skipBpmDirs (path_dirname dir) else dir)"
  by pat_completeness auto
termination
proof (relation "measure length")
  show "wf (measure length)" by simp
next
  fix dir :: string
  assume a: "isBpmDirName (path_basename dir) \<and> path_dirname dir \<noteq> dir"
  then obtain ds where "bpmDirDigits (path_basename dir) = Some ds"
    by (auto simp: isBpmDirName_def)
  then have "2 < length (path_basename dir)" by (rule bpmDirDigits_length)
  then have "2 < length dir" using path_basename_length [of dir] by simp
  then show "(path_dirname dir, dir) \<in> measure length"
    using path_dirname_shorter by simp
qed

declare skipBpmDirs.simps [simp del]

definition firstNonBpmAncestorDir :: "string \<Rightarrow> string" where
  "firstNonBpmAncestorDir filePath = skipBpmDirs (path_dirname filePath)"

text \<open>\<^verbatim>\<open>moveOrCopySync(src, dest)\<close> of bpmutils.js always moves.\<close>

definition moveOrCopySync_bpm :: "filesys \<Rightarrow> string \<Rightarrow> string \<Rightarrow> errno + filesys" where
  "moveOrCopySync_bpm fs src dest =
     (case renameSync fs src dest of
        Inr fs' \<Rightarrow> Inr fs'
      | Inl e \<Rightarrow>
          if e = EXDEV then
            (case copyFileSync fs src dest of
               Inl e' \<Rightarrow> Inl e'
             | Inr fs' \<Rightarrow> unlinkSync fs' src)
          else Inl e)"

definition sanitizeKey :: "string \<Rightarrow> string" where
  "sanitizeKey label = trim (removeIllegal label)"

text \<open>
  \<^verbatim>\<open>moveFileToBPMFolder(file, bpmValue, { keyValue, dryRun })\<close>. The tempo is an integer, or
  \<open>None\<close> for a value that is not finite; the key is a string, the empty one standing for
  \<^verbatim>\<open>null\<close> as well (both are falsy). The result is the path returned (\<open>None\<close> for \<^verbatim>\<open>null\<close>)
  and the file system left behind; a thrown error is on the left.
\<close>

definition moveFileToBPMFolder ::
  "filesys \<Rightarrow> string \<Rightarrow> int option \<Rightarrow> string \<Rightarrow> bool \<Rightarrow> errno + (string option \<times> filesys)" where
  "moveFileToBPMFolder fs file bpmValue keyValue dryRun =
     (case bpmValue of
        None \<Rightarrow> Inr (None, fs)
      | Some targetBpm \<Rightarrow>
          let dirNow = path_dirname file;
              alreadyInTargetBpm =
                (case getParentBpmValue file of None \<Rightarrow> False | Some b \<Rightarrow> int b = targetBpm);
              baseDir = firstNonBpmAncestorDir file;
              bpmDir = path_join [baseDir, showInt targetBpm @ '' BPM''];
              keyFolder = (if keyValue \<noteq> [] then sanitizeKey keyValue else []);
              finalDir = (if keyFolder \<noteq> [] then path_join [bpmDir, keyFolder] else bpmDir)
          in
            if alreadyInTargetBpm \<and> (keyFolder = [] \<or> isKeyDirName (path_basename dirNow))
            then Inr (Some (path_join [finalDir, path_basename file]), fs)
            else if dryRun then Inr (Some (path_join [finalDir, path_basename file]), fs)
            else
              (case mkdirSync fs finalDir of
                 Inl e \<Rightarrow> Inl e
               | Inr fs1 \<Rightarrow>
                   let dest = uniqueDestPath fs1 finalDir (path_basename file) in
                   (case moveOrCopySync_bpm fs1 file dest of
                      Inl e \<Rightarrow> Inl e
                    | Inr fs2 \<Rightarrow> Inr (Some dest, fs2))))"

section \<open>The organize pass (organizer.js)\<close>

subsection \<open>Configuration, collaborators and state\<close>

text \<open>
  The options of a run that the pass reads. \<open>cfg_flatCategories\<close> is the list
  \<^verbatim>\<open>startOrganizing\<close> stashes as \<^verbatim>\<open>config._flatCategories\<close>. A threshold and a duration are
  whole numbers of seconds here.
\<close>

record config =
  cfg_samplesDir :: string
  cfg_destDir :: string
  cfg_extensions :: "string list"
  cfg_mainCategories :: "mainCategory list"
  cfg_categories :: "(string \<times> string list) list"
  cfg_flatCategories :: "catEntry list"
  cfg_checkParentFolder :: bool
  cfg_checkLength :: bool
  cfg_lengthThreshold :: nat
  cfg_keepPackSubfolder :: bool
  cfg_sortMidiToFolder :: bool
  cfg_midiFolderName :: string
  cfg_moveFiles :: bool
  cfg_dryRun :: bool
  cfg_keepArchives :: bool
  cfg_dedupeEnabled :: bool
  cfg_dedupeAlgo :: string
  cfg_dedupeMode :: string
  cfg_dedupePreferDest :: bool

text \<open>The \<^verbatim>\<open>dedupe\<close> object but for its map, which is part of the state.\<close>

record dedupe =
  dd_enabled :: bool
  dd_algo :: string
  dd_mode :: string
  dd_preferDest :: bool
  dd_quarantineDir :: string

text \<open>What \<^verbatim>\<open>music-metadata\<close> finds in a file.\<close>

datatype durationResult = ParseFailed | NoDuration | Seconds nat

text \<open>
  An entry of a ZIP's central directory, and a file of a RAR: what its file header says
  (\<^verbatim>\<open>fileHeader.name\<close>, \<^verbatim>\<open>fileHeader.flags.directory\<close>) and its content.
\<close>

record zipEntry =
  ze_path :: string
  ze_isDirectory :: bool
  ze_data :: string

record rarFile =
  rf_name :: string
  rf_directory :: bool
  rf_data :: string

text \<open>
  The libraries the program calls are parameters of the model: the digest function
  of a named algorithm (\<open>None\<close>: no such algorithm), the duration in a content, the
  entries of a ZIP archive (\<open>None\<close>: not an archive), and \<^verbatim>\<open>node-unrar-js\<close>, which does the
  extraction of a RAR itself: the files of an archive (\<open>None\<close>: not an archive), and what
  the library does to the file system when it extracts one of them for a target
  directory, or the error it throws.
\<close>

record env =
  env_digest :: "string \<Rightarrow> (string \<Rightarrow> string) option"
  env_duration :: "string \<Rightarrow> durationResult"
  env_zipOpen :: "string \<Rightarrow> zipEntry list option"
  env_rarOpen :: "string \<Rightarrow> rarFile list option"
  env_rarExtract :: "filesys \<Rightarrow> string \<Rightarrow> rarFile \<Rightarrow> errno + filesys"

text \<open>
  The messages sent on \<^verbatim>\<open>organizing-log\<close>, by what they report, with their severity.
\<close>

datatype severity = LInfo | LWarning | LError | LSuccess

datatype logMsg =
    SkippedExtension string string
  | DryRunDuplicate string string
  | DuplicateSkipped string string
  | DuplicateQuarantined string string
  | HashingFailed string errno
  | DurationUnreadable string
  | Placed bool bool string string string
  | ProcessingError string errno
  | SamplesDirMissing string
  | DestDirEmpty
  | DestDirCreated string
  | DestDirFailed string errno
  | IndexingDestination
  | CancelledDuringIndexing
  | IndexedDestination nat
  | OrganizingCancelled
  | StartingProcessing
  | FoundFiles nat
  | NoFilesFound string
  | DryRunWouldExtract string string
  | Extracted string nat
  | ExtractorNoList nat
  | ScanFailed errno
  | ExtractError string errno

text \<open>
  The state a run works on: the file system, \<^verbatim>\<open>dedupe.map\<close> (a \<^verbatim>\<open>Map\<close>, in insertion
  order), the log so far, and the cancellation flag as it will be seen: \<open>Some n\<close> says
  the request arrives after \<open>n\<close> more reads of the flag, \<open>None\<close> that it never does.
\<close>

record state =
  st_fs :: filesys
  st_map :: "(string \<times> string) list"
  st_log :: "(logMsg \<times> severity) list"
  st_cancel :: "nat option"

definition send :: "logMsg \<Rightarrow> severity \<Rightarrow> state \<Rightarrow> state" where
  "send m s st = st\<lparr>st_log := st_log st @ [(m, s)]\<rparr>"

definition readCancel :: "state \<Rightarrow> bool \<times> state" where
  "readCancel st =
     (case st_cancel st of
        None \<Rightarrow> (False, st)
      | Some 0 \<Rightarrow> (True, st)
      | Some (Suc n) \<Rightarrow> (False, st\<lparr>st_cancel := Some n\<rparr>))"

subsection \<open>Helpers\<close>

definition isHiddenName :: "string \<Rightarrow> bool" where
  "isHiddenName name =
     (startsWith name ''.'' \<or> startsWith name ''._'' \<or>
      toLowerCase name = ''thumbs.db'' \<or> toLowerCase name = ''desktop.ini'' \<or>
      name = ''__MACOSX'')"

definition getExt :: "string \<Rightarrow> string" where
  "getExt p = toLowerCase (drop 1 (path_extname p))"

definition normalizeExtList :: "string list \<Rightarrow> string list" where
  "normalizeExtList list =
     map (\<lambda>e. let t = toLowerCase (trim e) in if startsWith t ''.'' then drop 1 t else t) list"

definition isAcceptedExt :: "string \<Rightarrow> config \<Rightarrow> bool" where
  "isAcceptedExt p config =
     (let accepted = normalizeExtList (cfg_extensions config) in
      if accepted = [] then True else getExt p \<in> set accepted)"

definition sanitizeFolderName :: "string \<Rightarrow> string" where
  "sanitizeFolderName s = trim (removeIllegal s)"

text \<open>
  The pack label of a file under the samples directory; the empty string stands for
  \<^verbatim>\<open>null\<close> too (the callers only test it for truth).
\<close>

definition packLabelFromSamples :: "string \<Rightarrow> string \<Rightarrow> string \<Rightarrow> string" where
  "packLabelFromSamples cwd absFile samplesDir =
     (if samplesDir = [] then []
      else
        let root = path_resolve cwd [samplesDir];
            abs = path_resolve cwd [absFile]
        in if \<not> startsWith abs (root @ ''/'') then []
           else
             let rel = drop (length root + 1) abs;
                 segs = filter (\<lambda>s. s \<noteq> []) (splitOn CHR ''/'' rel)
             in if segs = [] then []
                else
                  let pack = sanitizeFolderName (segs ! 0);
                      collection = (if 3 \<le> length segs then sanitizeFolderName (segs ! 1) else [])
                  in if collection \<noteq> [] then pack @ '' ('' @ collection @ '')'' else pack)"

text \<open>\<^verbatim>\<open>.replace(/\.(zip|rar)$/i, "")\<close>.\<close>

definition stripArchiveExt :: "string \<Rightarrow> string" where
  "stripArchiveExt s =
     (if endsWith (toLowerCase s) ''.zip'' \<or> endsWith (toLowerCase s) ''.rar''
      then take (length s - 4) s else s)"

text \<open>
  The pack label of a file under a scratch directory \<open>_temp_<name>\<close> of the destination:
  \<^verbatim>\<open>/^_temp_(.+)$/\<close> wants at least one character after the prefix and no line break.
\<close>

definition packLabelFromTemp :: "string \<Rightarrow> string \<Rightarrow> string \<Rightarrow> string" where
  "packLabelFromTemp cwd absFile destDir =
     (let destRoot = path_resolve cwd [destDir] @ ''/'';
          p = path_resolve cwd [absFile]
      in if \<not> startsWith p destRoot then []
         else
           let relFromDest = drop (length destRoot) p;
               firstSeg = hd (splitOn CHR ''/'' relFromDest);
               m1 = drop 6 firstSeg
           in if startsWith firstSeg ''_temp_'' \<and> m1 \<noteq> [] \<and>
                 CHR 0x0A \<notin> set m1 \<and> CHR 0x0D \<notin> set m1
              then sanitizeFolderName (stripArchiveExt m1) else [])"

text \<open>
  \<^verbatim>\<open>computeFileHash\<close>: the stream fails on what is no readable file, \<^verbatim>\<open>createHash\<close> on an
  unknown algorithm.
\<close>

definition computeFileHash :: "env \<Rightarrow> filesys \<Rightarrow> string \<Rightarrow> string \<Rightarrow> errno + string" where
  "computeFileHash env fs filePath algo =
     (case env_digest env algo of
        None \<Rightarrow> Inl ENOTSUP
      | Some h \<Rightarrow>
          (case lookupPath (fs_root fs) (fsPath fs filePath) of
             None \<Rightarrow> Inl ENOENT
           | Some (Dir es) \<Rightarrow> Inl EISDIR
           | Some (File c r) \<Rightarrow> if r then Inr (h c) else Inl EACCES))"

text \<open>\<^verbatim>\<open>mm.parseFile(fullPath)\<close> and the \<^verbatim>\<open>format.duration\<close> in its result.\<close>

definition parseFile :: "env \<Rightarrow> filesys \<Rightarrow> string \<Rightarrow> durationResult" where
  "parseFile env fs filePath =
     (case lookupPath (fs_root fs) (fsPath fs filePath) of
        Some (File c r) \<Rightarrow> if r then env_duration env c else ParseFailed
      | _ \<Rightarrow> ParseFailed)"

subsection \<open>\<^verbatim>\<open>categorizeFile\<close>\<close>

text \<open>What \<^verbatim>\<open>categorizeFile\<close> returns: \<^verbatim>\<open>{ src, dest }\<close>, \<^verbatim>\<open>null\<close> or nothing.\<close>

datatype placed = Record string string | Null | Undefined

text \<open>
  The directory is made, a free name is found in it and the file is moved or copied
  there. The result is the file system left behind and the destination, or the error
  thrown.
\<close>

definition moveInto ::
  "filesys \<Rightarrow> string \<Rightarrow> string \<Rightarrow> string \<Rightarrow> bool \<Rightarrow> filesys \<times> (errno + string)" where
  "moveInto fs targetPath fullPath fileName move =
     (case mkdirSync fs targetPath of
        Inl e \<Rightarrow> (fs, Inl e)
      | Inr fs1 \<Rightarrow>
          let dest = uniqueDestPath fs1 targetPath fileName in
          (case moveOrCopySync fs1 fullPath dest move of
             Inl e \<Rightarrow> (fs1, Inl e)
           | Inr fs2 \<Rightarrow> (fs2, Inr dest)))"

text \<open>The same for a duplicate; the directory is made only when nothing is at its path.\<close>

definition quarantine ::
  "filesys \<Rightarrow> string \<Rightarrow> string \<Rightarrow> string \<Rightarrow> bool \<Rightarrow> filesys \<times> (errno + string)" where
  "quarantine fs qDir fullPath fileName move =
     (case (if \<not> existsSync fs qDir then mkdirSync fs qDir else Inr fs) of
        Inl e \<Rightarrow> (fs, Inl e)
      | Inr fs1 \<Rightarrow>
          let dest = uniqueDestPath fs1 qDir fileName in
          (case moveOrCopySync fs1 fullPath dest move of
             Inl e \<Rightarrow> (fs1, Inl e)
           | Inr fs2 \<Rightarrow> (fs2, Inr dest)))"

text \<open>
  A file whose hash is in the map already. \<open>True\<close> in the result says that
  \<^verbatim>\<open>categorizeFile\<close> returns here; an error thrown on the way to \<open>_Duplicates\<close> is caught
  by the \<^verbatim>\<open>catch\<close> around the hashing and the file goes on to classification.
\<close>

definition handleDuplicate ::
  "config \<Rightarrow> dedupe \<Rightarrow> string \<Rightarrow> string \<Rightarrow> string \<Rightarrow> state \<Rightarrow> bool \<times> state" where
  "handleDuplicate config dedupe fullPath fileName firstSeen st =
     (if cfg_dryRun config then
        (True, send (DryRunDuplicate fileName (path_basename firstSeen)) LWarning st)
      else if dd_mode dedupe = ''skip'' then
        (True, send (DuplicateSkipped fileName (path_basename firstSeen)) LWarning st)
      else if dd_mode dedupe = ''quarantine'' then
        (case quarantine (st_fs st) (dd_quarantineDir dedupe) fullPath fileName
                (cfg_moveFiles config) of
           (fs', Inr dest) \<Rightarrow>
             (True, send (DuplicateQuarantined fileName (path_basename firstSeen)) LWarning
                      (st\<lparr>st_fs := fs'\<rparr>))
         | (fs', Inl e) \<Rightarrow>
             (False, send (HashingFailed fileName e) LError (st\<lparr>st_fs := fs'\<rparr>)))
      else (True, st))"

text \<open>The block \<^verbatim>\<open>if (dedupe?.enabled) { ... }\<close>.\<close>

definition dedupeStage ::
  "env \<Rightarrow> config \<Rightarrow> dedupe \<Rightarrow> string \<Rightarrow> string \<Rightarrow> state \<Rightarrow> bool \<times> state" where
  "dedupeStage env config dedupe fullPath fileName st =
     (if \<not> dd_enabled dedupe then (False, st)
      else
        (case readCancel st of
           (cancelRequested, st0) \<Rightarrow>
             if cancelRequested then (True, st0)
             else
               (case computeFileHash env (st_fs st0) fullPath (dd_algo dedupe) of
                  Inl e \<Rightarrow> (False, send (HashingFailed fileName e) LError st0)
                | Inr hash \<Rightarrow>
                    (case map_of (st_map st0) hash of
                       None \<Rightarrow> (False, st0\<lparr>st_map := setEntry hash fullPath (st_map st0)\<rparr>)
                     | Some firstSeen \<Rightarrow>
                         if firstSeen \<noteq> [] then
                           handleDuplicate config dedupe fullPath fileName firstSeen st0
                         else (False, st0\<lparr>st_map := setEntry hash fullPath (st_map st0)\<rparr>)))))"

text \<open>The optional length subfolder.\<close>

definition lengthStage ::
  "env \<Rightarrow> config \<Rightarrow> string \<Rightarrow> string \<Rightarrow> string \<Rightarrow> state \<Rightarrow> string \<times> state" where
  "lengthStage env config fullPath fileName targetRel st =
     (if cfg_checkLength config \<and> 0 < cfg_lengthThreshold config then
        (case parseFile env (st_fs st) fullPath of
           ParseFailed \<Rightarrow> (targetRel, send (DurationUnreadable fileName) LInfo st)
         | NoDuration \<Rightarrow> (targetRel, st)
         | Seconds dur \<Rightarrow>
             if cfg_lengthThreshold config < dur then
               let base = path_basename targetRel;
                   sfx = '' - Over '' @ showNat (cfg_lengthThreshold config) @ '' seconds''
               in if \<not> endsWith base sfx then (path_join [targetRel, base @ sfx], st)
                  else (targetRel, st)
             else (targetRel, st))
      else (targetRel, st))"

definition packLabelOf :: "config \<Rightarrow> string \<Rightarrow> string \<Rightarrow> string" where
  "packLabelOf config cwd fullPath =
     (if cfg_keepPackSubfolder config then
        (let l = packLabelFromSamples cwd fullPath (cfg_samplesDir config) in
         if l \<noteq> [] then l else packLabelFromTemp cwd fullPath (cfg_destDir config))
      else [])"

definition midiRootName :: "config \<Rightarrow> string" where
  "midiRootName config =
     (let m = trim (if cfg_midiFolderName config \<noteq> [] then cfg_midiFolderName config
                    else ''MIDI'')
      in if m \<noteq> [] then m else ''MIDI'')"

text \<open>
  The last step, the same in the MIDI branch and after it: in a dry run the planned
  path is logged, otherwise the file is placed and the path it got is logged.
\<close>

definition place ::
  "config \<Rightarrow> string \<Rightarrow> string \<Rightarrow> string \<Rightarrow> string \<Rightarrow> state \<Rightarrow> placed \<times> state" where
  "place config fullPath fileName targetPath logExtra st =
     (let destPlanned = path_join [targetPath, fileName] in
      if \<not> cfg_dryRun config then
        (case moveInto (st_fs st) targetPath fullPath fileName (cfg_moveFiles config) of
           (fs', Inr dest) \<Rightarrow>
             (Record fullPath dest,
              send (Placed False (cfg_moveFiles config) fileName dest logExtra) LSuccess
                (st\<lparr>st_fs := fs'\<rparr>))
         | (fs', Inl e) \<Rightarrow>
             (Null, send (ProcessingError fileName e) LError (st\<lparr>st_fs := fs'\<rparr>)))
      else
        (Record fullPath destPlanned,
         send (Placed True (cfg_moveFiles config) fileName destPlanned logExtra) LSuccess st))"

text \<open>
  Classification, what \<^verbatim>\<open>categorizeFile\<close> does after the dedupe block and before it places
  the file: the target directory and the note on the parent folder for the log.
\<close>

definition classify ::
  "env \<Rightarrow> config \<Rightarrow> string \<Rightarrow> string \<Rightarrow> string \<Rightarrow> bool \<Rightarrow> state \<Rightarrow> (string \<times> string) \<times> state" where
  "classify env config fullPath fileName parentFolder isMidi st =
     (case categoryMatch (cfg_flatCategories config) (cfg_checkParentFolder config)
             fileName parentFolder of
        (matched, usedParentFolder) \<Rightarrow>
          (case lengthStage env config fullPath fileName (baseTargetRel matched) st of
             (targetRel, st1) \<Rightarrow>
               let packLabel = packLabelOf config (fs_cwd (st_fs st1)) fullPath in
               if cfg_sortMidiToFolder config \<and> isMidi then
                 ((path_join (cfg_destDir config #
                     (if packLabel \<noteq> [] then [midiRootName config, packLabel]
                      else [midiRootName config])), []), st1)
               else
                 let targetRel' =
                       (if cfg_keepPackSubfolder config \<and> packLabel \<noteq> []
                        then path_join [targetRel, sanitizeFolderName packLabel]
                        else targetRel)
                 in ((path_join [cfg_destDir config, targetRel'],
                      if usedParentFolder then parentFolder else []), st1)))"

definition classifyAndPlace ::
  "env \<Rightarrow> config \<Rightarrow> string \<Rightarrow> string \<Rightarrow> string \<Rightarrow> bool \<Rightarrow> state \<Rightarrow> placed \<times> state" where
  "classifyAndPlace env config fullPath fileName parentFolder isMidi st =
     (case classify env config fullPath fileName parentFolder isMidi st of
        ((targetPath, logExtra), st1) \<Rightarrow>
          place config fullPath fileName targetPath logExtra st1)"

definition categorizeFile ::
  "env \<Rightarrow> string \<Rightarrow> config \<Rightarrow> dedupe \<Rightarrow> state \<Rightarrow> placed \<times> state" where
  "categorizeFile env fullPath config dedupe st =
     (let fileName = path_basename fullPath in
      if isHiddenName fileName then (Undefined, st)
      else
        let relativePath = path_relative (fs_cwd (st_fs st)) (cfg_samplesDir config) fullPath;
            parentFolder = last (splitOn CHR ''/'' (path_dirname relativePath));
            ext = getExt fullPath;
            isMidi = (ext = ''mid'' \<or> ext = ''midi'')
        in if \<not> isAcceptedExt fullPath config then
             (Undefined, send (SkippedExtension fileName ext) LInfo st)
           else
             (case dedupeStage env config dedupe fullPath fileName st of
                (True, st1) \<Rightarrow> (Undefined, st1)
              | (False, st1) \<Rightarrow>
                  classifyAndPlace env config fullPath fileName parentFolder isMidi st1))"

section \<open>Archive expansion (extractZip.js, extractRar.js)\<close>

text \<open>
  The walks and the flattening read a directory and then, entry by entry, what is at
  \<open>dir/name\<close>; in the tree that is the entry's own node, so they are defined on the nodes.
\<close>

definition isHiddenOrJunk :: "string \<Rightarrow> bool" where
  "isHiddenOrJunk name =
     (if name = [] then False
      else (startsWith name ''.'' \<or> startsWith name ''._'' \<or> name = ''__MACOSX'' \<or>
            toLowerCase name = ''thumbs.db'' \<or> toLowerCase name = ''desktop.ini''))"

text \<open>\<^verbatim>\<open>walkFiles(dir)\<close> of extractZip.js: the files that are not hidden, depth first.\<close>

fun walkEntries :: "string \<Rightarrow> (string \<times> node) list \<Rightarrow> string list"
  and walkNode :: "string \<Rightarrow> node \<Rightarrow> string list" where
  "walkEntries dir [] = []"
| "walkEntries dir (e # es) =
     (if isHiddenOrJunk (fst e) then walkEntries dir es
      else walkNode (path_join [dir, fst e]) (snd e) @ walkEntries dir es)"
| "walkNode full (File c r) = [full]"
| "walkNode full (Dir es) = walkEntries full es"

definition walkFiles :: "filesys \<Rightarrow> string \<Rightarrow> errno + string list" where
  "walkFiles fs dir =
     (case readdirSync fs dir of Inl e \<Rightarrow> Inl e | Inr es \<Rightarrow> Inr (walkEntries dir es))"

text \<open>
  \<^verbatim>\<open>flattenSingleFolders\<close> of extractZip.js, on the entries of the folder: while the only
  entry is a directory that is not hidden, its entries are renamed into the folder one
  after the other and the wrapper is removed. An inner entry named like the wrapper
  cannot be renamed onto it (the wrapper is a directory that is not empty): the rename
  throws, with the entries before it moved and the others still in the wrapper. The
  error comes with what the folder holds by then.
\<close>

definition hoistedUntil :: "string \<Rightarrow> (string \<times> node) list \<Rightarrow> (string \<times> node) list" where
  "hoistedUntil name inner =
     (name, Dir (dropWhile (\<lambda>e. fst e \<noteq> name) inner)) # takeWhile (\<lambda>e. fst e \<noteq> name) inner"

definition hoistError :: "string \<Rightarrow> (string \<times> node) list \<Rightarrow> errno option" where
  "hoistError name inner =
     (case map_of inner name of
        None \<Rightarrow> None
      | Some (File c r) \<Rightarrow> Some EISDIR
      | Some (Dir es) \<Rightarrow> Some ENOTEMPTY)"

function flattenItems ::
  "(string \<times> node) list \<Rightarrow> (errno \<times> (string \<times> node) list) + (string \<times> node) list" where
  "flattenItems items =
     (case items of
        [(name, Dir inner)] \<Rightarrow>
          if \<not> isHiddenOrJunk name then
            (case hoistError name inner of
               Some e \<Rightarrow> Inl (e, hoistedUntil name inner)
             | None \<Rightarrow> flattenItems inner)
          else Inr items
      | _ \<Rightarrow> Inr items)"
  by pat_completeness auto
termination
  by (relation "measure (size_list (size_prod (\<lambda>x. 0) size))") auto

declare flattenItems.simps [simp del]

definition setFolder :: "filesys \<Rightarrow> string \<Rightarrow> (string \<times> node) list \<Rightarrow> filesys" where
  "setFolder fs folderPath items =
     (case putPath (fs_root fs) (fsPath fs folderPath) (Dir items) of
        None \<Rightarrow> fs
      | Some root' \<Rightarrow> fs\<lparr>fs_root := root'\<rparr>)"

definition flattenSingleFolders :: "filesys \<Rightarrow> string \<Rightarrow> (errno \<times> filesys) + filesys" where
  "flattenSingleFolders fs folderPath =
     (if \<not> existsSync fs folderPath then Inr fs
      else
        (case readdirSync fs folderPath of
           Inl e \<Rightarrow> Inl (e, fs)
         | Inr items \<Rightarrow>
             (case flattenItems items of
                Inl (e, items') \<Rightarrow> Inl (e, setFolder fs folderPath items')
              | Inr items' \<Rightarrow> Inr (setFolder fs folderPath items'))))"

text \<open>Writing an entry's stream to a path.\<close>

definition writeFile :: "filesys \<Rightarrow> string \<Rightarrow> string \<Rightarrow> errno + filesys" where
  "writeFile fs p content =
     (case lookupPath (fs_root fs) (fsPath fs p) of
        Some (Dir ds) \<Rightarrow> Inl EISDIR
      | _ \<Rightarrow>
          (case lookupPath (fs_root fs) (butlast (fsPath fs p)) of
             None \<Rightarrow> Inl ENOENT
           | Some (File c r) \<Rightarrow> Inl ENOTDIR
           | Some (Dir ps) \<Rightarrow>
               (case putPath (fs_root fs) (fsPath fs p) (File content True) of
                  None \<Rightarrow> Inl ENOENT
                | Some root' \<Rightarrow> Inr (fs\<lparr>fs_root := root'\<rparr>))))"

text \<open>\<^verbatim>\<open>entry.path.replace(/^[\\/]+/, "")\<close>.\<close>

definition stripLeadingSlashes :: "string \<Rightarrow> string" where
  "stripLeadingSlashes p = dropWhile (\<lambda>c. c = CHR ''/'' \<or> c = CHR 0x5C) p"

text \<open>
  Where an entry of a ZIP goes: \<open>None\<close> when the resolved path is not below the
  destination (the entry is skipped).
\<close>

definition zipTarget :: "string \<Rightarrow> string \<Rightarrow> string \<Rightarrow> string option" where
  "zipTarget cwd destDir entryPath =
     (let rel = stripLeadingSlashes entryPath;
          targetPath = path_resolve cwd [destDir, rel];
          destRoot = path_resolve cwd [destDir] @ ''/''
      in if \<not> startsWith targetPath destRoot then None else Some targetPath)"

fun extractEntries :: "filesys \<Rightarrow> string \<Rightarrow> zipEntry list \<Rightarrow> filesys \<times> errno option" where
  "extractEntries fs destDir [] = (fs, None)"
| "extractEntries fs destDir (entry # entries) =
     (if ze_isDirectory entry then extractEntries fs destDir entries
      else
        (case zipTarget (fs_cwd fs) destDir (ze_path entry) of
           None \<Rightarrow> extractEntries fs destDir entries
         | Some targetPath \<Rightarrow>
             (case mkdirSync fs (path_dirname targetPath) of
                Inl e \<Rightarrow> (fs, Some e)
              | Inr fs1 \<Rightarrow>
                  (case writeFile fs1 targetPath (ze_data entry) of
                     Inl e \<Rightarrow> (fs1, Some e)
                   | Inr fs2 \<Rightarrow> extractEntries fs2 destDir entries))))"

text \<open>\<^verbatim>\<open>unzipper.Open.file(zipPath)\<close>.\<close>

definition zipOpen :: "env \<Rightarrow> filesys \<Rightarrow> string \<Rightarrow> errno + zipEntry list" where
  "zipOpen env fs zipPath =
     (case lookupPath (fs_root fs) (fsPath fs zipPath) of
        None \<Rightarrow> Inl ENOENT
      | Some (Dir es) \<Rightarrow> Inl EISDIR
      | Some (File c r) \<Rightarrow>
          if \<not> r then Inl EACCES
          else (case env_zipOpen env c of None \<Rightarrow> Inl EINVAL | Some entries \<Rightarrow> Inr entries))"

text \<open>
  \<^verbatim>\<open>extractZip(zipPath, destDir, keepArchives)\<close>: the file system left behind and the list
  of extracted files, or the error thrown.
\<close>

definition extractZip ::
  "env \<Rightarrow> filesys \<Rightarrow> string \<Rightarrow> string \<Rightarrow> bool \<Rightarrow> filesys \<times> (errno + string list)" where
  "extractZip env fs zipPath destDir keepArchives =
     (case (if \<not> existsSync fs destDir then mkdirSync fs destDir else Inr fs) of
        Inl e \<Rightarrow> (fs, Inl e)
      | Inr fs1 \<Rightarrow>
          (case zipOpen env fs1 zipPath of
             Inl e \<Rightarrow> (fs1, Inl e)
           | Inr entries \<Rightarrow>
               (case extractEntries fs1 destDir entries of
                  (fs2, Some e) \<Rightarrow> (fs2, Inl e)
                | (fs2, None) \<Rightarrow>
                    (case flattenSingleFolders fs2 destDir of
                       Inl (e, fs3) \<Rightarrow> (fs3, Inl e)
                     | Inr fs3 \<Rightarrow>
                         (case walkFiles fs3 destDir of
                            Inl e \<Rightarrow> (fs3, Inl e)
                          | Inr extractedFiles \<Rightarrow>
                              (if \<not> keepArchives \<and> existsSync fs3 zipPath then
                                 (case unlinkSync fs3 zipPath of
                                    Inl e \<Rightarrow> (fs3, Inr extractedFiles)
                                  | Inr fs4 \<Rightarrow> (fs4, Inr extractedFiles))
                               else (fs3, Inr extractedFiles)))))))"

text \<open>
  \<^verbatim>\<open>flattenSingleFolders\<close> of extractRar.js: any single directory is unwrapped, hidden or
  not.
\<close>

function flattenItemsRar ::
  "(string \<times> node) list \<Rightarrow> (errno \<times> (string \<times> node) list) + (string \<times> node) list" where
  "flattenItemsRar items =
     (case items of
        [(name, Dir inner)] \<Rightarrow>
          (case hoistError name inner of
             Some e \<Rightarrow> Inl (e, hoistedUntil name inner)
           | None \<Rightarrow> flattenItemsRar inner)
      | _ \<Rightarrow> Inr items)"
  by pat_completeness auto
termination
  by (relation "measure (size_list (size_prod (\<lambda>x. 0) size))") auto

declare flattenItemsRar.simps [simp del]

definition flattenSingleFoldersRar :: "filesys \<Rightarrow> string \<Rightarrow> (errno \<times> filesys) + filesys" where
  "flattenSingleFoldersRar fs folderPath =
     (case readdirSync fs folderPath of
        Inl e \<Rightarrow> Inl (e, fs)
      | Inr items \<Rightarrow>
          (case flattenItemsRar items of
             Inl (e, items') \<Rightarrow> Inl (e, setFolder fs folderPath items')
           | Inr items' \<Rightarrow> Inr (setFolder fs folderPath items')))"

text \<open>
  \<^verbatim>\<open>createExtractorFromFile\<close> and \<^verbatim>\<open>extractor.extract()\<close>: the archive is read and opened.
  The files come as a generator: \<^verbatim>\<open>list.files\<close> is always there, so the early return
  \<^verbatim>\<open>if (!list.files)\<close> is never taken, and a file is extracted when the loop over
  \<^verbatim>\<open>list.files\<close> reaches it.
\<close>

definition rarOpen :: "env \<Rightarrow> filesys \<Rightarrow> string \<Rightarrow> errno + rarFile list" where
  "rarOpen env fs filepath =
     (case lookupPath (fs_root fs) (fsPath fs filepath) of
        None \<Rightarrow> Inl ENOENT
      | Some (Dir es) \<Rightarrow> Inl EISDIR
      | Some (File c r) \<Rightarrow>
          if \<not> r then Inl EACCES
          else (case env_rarOpen env c of None \<Rightarrow> Inl EINVAL | Some files \<Rightarrow> Inr files))"

text \<open>
  The loop \<^verbatim>\<open>for (const f of list.files)\<close>: the library extracts the file, and the path
  of what is no directory is pushed, the name of the header joined to the destination.
\<close>

fun extractListed ::
  "env \<Rightarrow> filesys \<Rightarrow> string \<Rightarrow> rarFile list \<Rightarrow> string list \<Rightarrow> filesys \<times> (errno + string list)" where
  "extractListed env fs destination [] extractedFiles = (fs, Inr extractedFiles)"
| "extractListed env fs destination (f # files) extractedFiles =
     (case env_rarExtract env fs destination f of
        Inl e \<Rightarrow> (fs, Inl e)
      | Inr fs1 \<Rightarrow>
          extractListed env fs1 destination files
            (if \<not> rf_directory f then extractedFiles @ [path_join [destination, rf_name f]]
             else extractedFiles))"

text \<open>
  \<^verbatim>\<open>extractRarArchive(file, destination, keepArchive)\<close>. The flattening comes before the
  loop, so before anything of the archive is in the destination.
\<close>

definition extractRarArchive ::
  "env \<Rightarrow> filesys \<Rightarrow> string \<Rightarrow> string \<Rightarrow> bool \<Rightarrow> filesys \<times> (errno + string list)" where
  "extractRarArchive env fs file destination keepArchive =
     (case (if \<not> existsSync fs destination then mkdirSync fs destination else Inr fs) of
        Inl e \<Rightarrow> (fs, Inl e)
      | Inr fs1 \<Rightarrow>
          (case rarOpen env fs1 file of
             Inl e \<Rightarrow> (fs1, Inl e)
           | Inr files \<Rightarrow>
               (case flattenSingleFoldersRar fs1 destination of
                  Inl (e, fs2) \<Rightarrow> (fs2, Inl e)
                | Inr fs2 \<Rightarrow>
                    (case extractListed env fs2 destination files [] of
                       (fs3, Inl e) \<Rightarrow> (fs3, Inl e)
                     | (fs3, Inr extractedFiles) \<Rightarrow>
                         if \<not> keepArchive then
                           (case unlinkSync fs3 file of
                              Inl e \<Rightarrow> (fs3, Inl e)
                            | Inr fs4 \<Rightarrow> (fs4, Inr extractedFiles))
                         else (fs3, Inr extractedFiles)))))"

section \<open>The run (organizer.js, \<^verbatim>\<open>startOrganizing\<close>)\<close>

text \<open>\<^verbatim>\<open>getAllFiles(dir)\<close>: the files below \<open>dir\<close> that are not hidden, depth first.\<close>

fun allEntries :: "string \<Rightarrow> (string \<times> node) list \<Rightarrow> string list"
  and allNode :: "string \<Rightarrow> node \<Rightarrow> string list" where
  "allEntries dir [] = []"
| "allEntries dir (e # es) =
     (if isHiddenName (fst e) then allEntries dir es
      else allNode (path_join [dir, fst e]) (snd e) @ allEntries dir es)"
| "allNode fullPath (File c r) = (if isHiddenName (path_basename fullPath) then [] else [fullPath])"
| "allNode fullPath (Dir es) = allEntries fullPath es"

definition getAllFiles :: "filesys \<Rightarrow> string \<Rightarrow> errno + string list" where
  "getAllFiles fs dir =
     (case readdirSync fs dir of Inl e \<Rightarrow> Inl e | Inr es \<Rightarrow> Inr (allEntries dir es))"

text \<open>\<^verbatim>\<open>removeFolderRecursive\<close>: nothing to do when the folder is not there.\<close>

definition removeFolderRecursive :: "filesys \<Rightarrow> string \<Rightarrow> errno + filesys" where
  "removeFolderRecursive fs folderPath =
     (case lookupPath (fs_root fs) (fsPath fs folderPath) of
        None \<Rightarrow> Inr fs
      | Some (File c r) \<Rightarrow> Inl ENOTDIR
      | Some (Dir es) \<Rightarrow> Inr (rmSync fs folderPath))"

text \<open>\<^verbatim>\<open>if (r && r.dest) movedThisRun.push(r)\<close>.\<close>

definition pushRecord :: "placed \<Rightarrow> (string \<times> string) list \<Rightarrow> (string \<times> string) list" where
  "pushRecord r moved =
     (case r of
        Record src dest \<Rightarrow> if dest \<noteq> [] then moved @ [(src, dest)] else moved
      | _ \<Rightarrow> moved)"

text \<open>The files of an expanded archive, one after the other.\<close>

fun processExtracted ::
  "env \<Rightarrow> config \<Rightarrow> dedupe \<Rightarrow> string list \<Rightarrow> (string \<times> string) list \<Rightarrow> state \<Rightarrow>
     (string \<times> string) list \<times> state" where
  "processExtracted env config dedupe [] moved st = (moved, st)"
| "processExtracted env config dedupe (extracted # rest) moved st =
     (if \<not> isAcceptedExt extracted config then
        processExtracted env config dedupe rest moved
          (send (SkippedExtension (path_basename extracted) (getExt extracted)) LInfo st)
      else
        (case categorizeFile env extracted config dedupe st of
           (r, st1) \<Rightarrow> processExtracted env config dedupe rest (pushRecord r moved) st1))"

text \<open>
  The fallback \<^verbatim>\<open>if (extractedFiles.length === 0)\<close>: the scratch directory is scanned.
\<close>

definition scanFallback :: "string list \<Rightarrow> string \<Rightarrow> state \<Rightarrow> string list \<times> state" where
  "scanFallback extractedFiles tempDir st =
     (if extractedFiles = [] then
        (case getAllFiles (st_fs st) tempDir of
           Inl e \<Rightarrow> ([], send (ScanFailed e) LError st)
         | Inr found \<Rightarrow> (found, send (ExtractorNoList (length found)) LInfo st))
      else (extractedFiles, st))"

text \<open>The scratch directory is removed; what that throws is caught with the rest.\<close>

definition removeScratch :: "string \<Rightarrow> string \<Rightarrow> state \<Rightarrow> state" where
  "removeScratch fileName tempDir st =
     (case removeFolderRecursive (st_fs st) tempDir of
        Inl e \<Rightarrow> send (ExtractError fileName e) LError st
      | Inr fs' \<Rightarrow> st\<lparr>st_fs := fs'\<rparr>)"

text \<open>The scratch directory of an archive, and its expansion by the extractor for its kind.\<close>

definition tempDirOf :: "config \<Rightarrow> string \<Rightarrow> string" where
  "tempDirOf config fileName =
     path_join [cfg_destDir config,
                ''_temp_'' @ path_basename2 fileName (path_extname fileName)]"

definition extractArchive ::
  "env \<Rightarrow> filesys \<Rightarrow> string \<Rightarrow> string \<Rightarrow> string \<Rightarrow> bool \<Rightarrow> filesys \<times> (errno + string list)" where
  "extractArchive env fs fullPath tempDir ext keepArchives =
     (if ext = ''zip'' then extractZip env fs fullPath tempDir keepArchives
      else extractRarArchive env fs fullPath tempDir keepArchives)"

text \<open>
  An archive among the source files: a dry run only reports it; otherwise it is expanded
  into \<open>_temp_<base>\<close> under the destination, its files are classified and the scratch
  directory is removed. Whatever is thrown on the way is logged and the run goes on.
\<close>

definition processArchive ::
  "env \<Rightarrow> config \<Rightarrow> dedupe \<Rightarrow> string \<Rightarrow> string \<Rightarrow> string \<Rightarrow> (string \<times> string) list \<Rightarrow> state \<Rightarrow>
     (string \<times> string) list \<times> state" where
  "processArchive env config dedupe fullPath fileName ext moved st =
     (if cfg_dryRun config then
        (moved, send (DryRunWouldExtract fileName ext) LWarning st)
      else
        (case extractArchive env (st_fs st) fullPath (tempDirOf config fileName) ext
                (cfg_keepArchives config) of
           (fs1, Inl e) \<Rightarrow> (moved, send (ExtractError fileName e) LError (st\<lparr>st_fs := fs1\<rparr>))
         | (fs1, Inr extractedFiles) \<Rightarrow>
             (case scanFallback extractedFiles (tempDirOf config fileName)
                     (send (Extracted fileName (length extractedFiles)) LWarning
                        (st\<lparr>st_fs := fs1\<rparr>)) of
                (files, st1) \<Rightarrow>
                  (case processExtracted env config dedupe files moved st1 of
                     (moved', st2) \<Rightarrow>
                       (moved', removeScratch fileName (tempDirOf config fileName) st2)))))"

text \<open>The loop over the source files; the flag is read at the top of each turn.\<close>

fun processFiles ::
  "env \<Rightarrow> config \<Rightarrow> dedupe \<Rightarrow> string list \<Rightarrow> (string \<times> string) list \<Rightarrow> state \<Rightarrow>
     (string \<times> string) list \<times> state" where
  "processFiles env config dedupe [] moved st = (moved, st)"
| "processFiles env config dedupe (fullPath # rest) moved st =
     (case readCancel st of
        (cancelRequested, st0) \<Rightarrow>
          if cancelRequested then (moved, st0)
          else
            let fileName = path_basename fullPath;
                ext = getExt fullPath
            in if ext = ''zip'' \<or> ext = ''rar'' then
                 (case processArchive env config dedupe fullPath fileName ext moved st0 of
                    (moved', st1) \<Rightarrow> processFiles env config dedupe rest moved' st1)
               else
                 (case categorizeFile env fullPath config dedupe st0 of
                    (r2, st1) \<Rightarrow>
                      processFiles env config dedupe rest (pushRecord r2 moved) st1))"

text \<open>
  Seeding the map with the files of the destination. The result says whether the loop
  was left by a cancellation, and how many entries were added.
\<close>

fun seedLoop ::
  "env \<Rightarrow> config \<Rightarrow> dedupe \<Rightarrow> string list \<Rightarrow> nat \<Rightarrow> state \<Rightarrow> nat \<times> state" where
  "seedLoop env config dedupe [] seeded st = (seeded, st)"
| "seedLoop env config dedupe (f # rest) seeded st =
     (case readCancel st of
        (cancelRequested, st0) \<Rightarrow>
          if cancelRequested then (seeded, send CancelledDuringIndexing LWarning st0)
          else if \<not> isAcceptedExt f config then seedLoop env config dedupe rest seeded st0
          else
            (case computeFileHash env (st_fs st0) f (dd_algo dedupe) of
               Inl e \<Rightarrow> seedLoop env config dedupe rest seeded st0
             | Inr h \<Rightarrow>
                 if map_of (st_map st0) h = None then
                   seedLoop env config dedupe rest (Suc seeded)
                     (st0\<lparr>st_map := setEntry h f (st_map st0)\<rparr>)
                 else seedLoop env config dedupe rest seeded st0))"

text \<open>The event \<^verbatim>\<open>organizing-done\<close>: destination, dry run, the files placed.\<close>

record doneEvent =
  done_destDir :: string
  done_dryRun :: bool
  done_newFiles :: "(string \<times> string) list"

definition mkDedupe :: "config \<Rightarrow> dedupe" where
  "mkDedupe config =
     \<lparr>dd_enabled = cfg_dedupeEnabled config,
      dd_algo = (if cfg_dedupeAlgo config \<noteq> [] then cfg_dedupeAlgo config else ''sha256''),
      dd_mode = (if cfg_dedupeMode config \<noteq> [] then cfg_dedupeMode config else ''skip''),
      dd_preferDest = cfg_dedupePreferDest config,
      dd_quarantineDir = path_join [cfg_destDir config, ''_Duplicates'']\<rparr>"

text \<open>
  Seeding, when it is asked for: \<open>Inl\<close> for what \<^verbatim>\<open>getAllFiles\<close> throws, otherwise whether
  the run goes on (it does not after a cancellation).
\<close>

definition seedStage :: "env \<Rightarrow> config \<Rightarrow> dedupe \<Rightarrow> state \<Rightarrow> (errno + bool) \<times> state" where
  "seedStage env config dedupe st =
     (if dd_enabled dedupe \<and> dd_preferDest dedupe then
        (case getAllFiles (st_fs st) (cfg_destDir config) of
           Inl e \<Rightarrow> (Inl e, send IndexingDestination LInfo st)
         | Inr destFiles \<Rightarrow>
             (case seedLoop env config dedupe destFiles 0 (send IndexingDestination LInfo st) of
                (seeded, st1) \<Rightarrow>
                  (case readCancel st1 of
                     (cancelRequested, st2) \<Rightarrow>
                       if \<not> cancelRequested then
                         (Inr True, send (IndexedDestination seeded) LWarning st2)
                       else (Inr False, send OrganizingCancelled LWarning st2))))
      else (Inr True, st))"

text \<open>
  The part of \<^verbatim>\<open>startOrganizing\<close> after the destination is there. The result is what the
  run ends with, an error that no \<^verbatim>\<open>catch\<close> of the program stops or the event
  \<^verbatim>\<open>organizing-done\<close> if it is sent, and the state it leaves.
\<close>

definition organize ::
  "env \<Rightarrow> config \<Rightarrow> state \<Rightarrow> (errno + doneEvent option) \<times> state" where
  "organize env config0 st =
     (let config = config0\<lparr>cfg_flatCategories :=
                     flattenMainCategories (cfg_mainCategories config0) (cfg_categories config0)\<rparr>;
          dedupe = mkDedupe config
      in
       (case (if dd_enabled dedupe \<and> dd_mode dedupe = ''quarantine'' \<and> \<not> cfg_dryRun config
                 \<and> \<not> existsSync (st_fs st) (dd_quarantineDir dedupe)
              then mkdirSync (st_fs st) (dd_quarantineDir dedupe) else Inr (st_fs st)) of
          Inl e \<Rightarrow> (Inl e, st)
        | Inr fs1 \<Rightarrow>
            (case seedStage env config dedupe (st\<lparr>st_fs := fs1\<rparr>) of
               (Inl e, st3) \<Rightarrow> (Inl e, st3)
             | (Inr False, st3) \<Rightarrow> (Inr None, st3)
             | (Inr True, st3) \<Rightarrow>
                 (case getAllFiles (st_fs st3) (cfg_samplesDir config) of
                    Inl e \<Rightarrow> (Inl e, send StartingProcessing LWarning st3)
                  | Inr files \<Rightarrow>
                      let st4 = send (FoundFiles (length files)) LInfo
                                  (send StartingProcessing LWarning st3)
                      in if files = [] then
                           (Inr (Some \<lparr>done_destDir = cfg_destDir config,
                                       done_dryRun = cfg_dryRun config, done_newFiles = []\<rparr>),
                            send (NoFilesFound (cfg_samplesDir config)) LWarning st4)
                         else
                           (case processFiles env config dedupe files [] st4 of
                              (movedThisRun, st5) \<Rightarrow>
                                (Inr (Some \<lparr>done_destDir = cfg_destDir config,
                                            done_dryRun = cfg_dryRun config,
                                            done_newFiles = movedThisRun\<rparr>), st5))))))"

text \<open>
  \<^verbatim>\<open>startOrganizing(config, webContents)\<close>. \<^verbatim>\<open>fs.existsSync\<close> of a samples directory that is
  not set is false.
\<close>

definition startOrganizing ::
  "env \<Rightarrow> config \<Rightarrow> state \<Rightarrow> (errno + doneEvent option) \<times> state" where
  "startOrganizing env config st =
     (if cfg_samplesDir config = [] \<or> \<not> existsSync (st_fs st) (cfg_samplesDir config) then
        (Inr None, send (SamplesDirMissing (cfg_samplesDir config)) LError st)
      else if cfg_destDir config = [] then
        (Inr None, send DestDirEmpty LError st)
      else if \<not> existsSync (st_fs st) (cfg_destDir config) then
        (case mkdirSync (st_fs st) (cfg_destDir config) of
           Inl e \<Rightarrow> (Inr None, send (DestDirFailed (cfg_destDir config) e) LError st)
         | Inr fs1 \<Rightarrow>
             organize env config
               (send (DestDirCreated (cfg_destDir config)) LInfo (st\<lparr>st_fs := fs1\<rparr>)))
      else organize env config st)"

section \<open>Example runs\<close>

text \<open>
  Collaborators for the examples: the digest of a content is the content itself (so equal
  digests mean equal contents), no file has a duration, nothing is an archive.
\<close>

definition plainEnv :: env where
  "plainEnv =
     \<lparr>env_digest = (\<lambda>algo. if algo = ''sha256'' \<or> algo = ''sha1'' then Some (\<lambda>c. c) else None),
      env_duration = (\<lambda>c. NoDuration),
      env_zipOpen = (\<lambda>c. None),
      env_rarOpen = (\<lambda>c. None),
      env_rarExtract = (\<lambda>fs t f. Inr fs)\<rparr>"

text \<open>
  A configuration that moves \<open>wav\<close> and \<open>mid\<close> files from \<open>/s\<close> to \<open>/d\<close>, with one category,
  \<open>Kick\<close>.
\<close>

definition plainConfig :: config where
  "plainConfig =
     \<lparr>cfg_samplesDir = ''/s'', cfg_destDir = ''/d'', cfg_extensions = [''wav'', ''mid''],
      cfg_mainCategories = [], cfg_categories = [(''Kick'', [''kick''])],
      cfg_flatCategories = [\<lparr>ent_main = [], ent_category = ''Kick'', ent_keywords = [''kick''],
                              ent_matchAll = False\<rparr>],
      cfg_checkParentFolder = False, cfg_checkLength = False, cfg_lengthThreshold = 0,
      cfg_keepPackSubfolder = False, cfg_sortMidiToFolder = False, cfg_midiFolderName = [],
      cfg_moveFiles = True, cfg_dryRun = False, cfg_keepArchives = True,
      cfg_dedupeEnabled = False, cfg_dedupeAlgo = [], cfg_dedupeMode = [],
      cfg_dedupePreferDest = True\<rparr>"

text \<open>A state with a given tree, the working directory \<open>/\<close>, nothing logged or indexed.\<close>

definition freshState :: "node \<Rightarrow> state" where
  "freshState root =
     \<lparr>st_fs = \<lparr>fs_root = root, fs_cwd = ''/''\<rparr>, st_map = [], st_log = [], st_cancel = None\<rparr>"

text \<open>Two files of the same name and content in two folders, and an empty destination.\<close>

definition twoTwins :: node where
  "twoTwins =
     Dir [(''s'', Dir [(''a'', Dir [(''x.wav'', File ''abc'' True)]),
                       (''b'', Dir [(''x.wav'', File ''abc'' True)])]),
          (''d'', Dir [])]"



text \<open>
  Archive libraries for the examples. Every ZIP holds the given entries. Every RAR holds
  the given files, and the library keeps what it writes below the target directory: the
  segments of a name that are empty, \<open>.\<close> or \<open>..\<close> are left out. The header still has the
  name as it is in the archive.
\<close>

definition zipOf :: "zipEntry list \<Rightarrow> env" where
  "zipOf entries = plainEnv\<lparr>env_zipOpen := (\<lambda>c. Some entries)\<rparr>"

definition insideName :: "string \<Rightarrow> string" where
  "insideName nm = joinWith ''/'' (filter plainSeg (splitOn CHR ''/'' nm))"

definition rarWrite :: "filesys \<Rightarrow> string \<Rightarrow> rarFile \<Rightarrow> errno + filesys" where
  "rarWrite fs targetPath f =
     (if insideName (rf_name f) = [] then Inr fs
      else if rf_directory f then mkdirSync fs (path_join [targetPath, insideName (rf_name f)])
      else
        (case mkdirSync fs (path_dirname (path_join [targetPath, insideName (rf_name f)])) of
           Inl e \<Rightarrow> Inl e
         | Inr fs1 \<Rightarrow> writeFile fs1 (path_join [targetPath, insideName (rf_name f)]) (rf_data f)))"

definition rarOf :: "rarFile list \<Rightarrow> env" where
  "rarOf files = plainEnv\<lparr>env_rarOpen := (\<lambda>c. Some files), env_rarExtract := rarWrite\<rparr>"

text \<open>Folders nested one in the other around some entries, the outermost named first.\<close>

fun wrapIn :: "string list \<Rightarrow> (string \<times> node) list \<Rightarrow> (string \<times> node) list" where
  "wrapIn [] items = items"
| "wrapIn (name # names) items = [(name, Dir (wrapIn names items))]"

text \<open>No folder of such a nest holds an entry of its own name.\<close>

fun noClash :: "string list \<Rightarrow> (string \<times> node) list \<Rightarrow> bool" where
  "noClash [] items = True"
| "noClash (name # names) items =
     (map_of (wrapIn names items) name = None \<and> noClash names items)"

section \<open>Verified properties\<close>

subsection \<open>First match\<close>

lemma normalizeString_toLowerCase: "normalizeString (toLowerCase s) = normalizeString s"
  by (simp add: normalizeString_def toLowerCase_idem)

lemma firstMatch_Some_iff:
  "firstMatch spec hay = Some ent \<longleftrightarrow>
     (\<exists>pre post. spec = pre @ ent # post \<and> (\<forall>e \<in> set pre. \<not> matchesKeywords e hay)
        \<and> matchesKeywords ent hay)"
proof (induction spec)
  case Nil
  then show ?case by simp
next
  case (Cons a spec)
  show ?case
  proof (cases "matchesKeywords a hay")
    case True
    have "(\<exists>pre post. a # spec = pre @ ent # post \<and> (\<forall>e \<in> set pre. \<not> matchesKeywords e hay)
        \<and> matchesKeywords ent hay) \<longleftrightarrow> a = ent"
    proof
      assume "\<exists>pre post. a # spec = pre @ ent # post \<and> (\<forall>e \<in> set pre. \<not> matchesKeywords e hay)
        \<and> matchesKeywords ent hay"
      then obtain pre post where h: "a # spec = pre @ ent # post" "\<forall>e \<in> set pre. \<not> matchesKeywords e hay" by blast
      show "a = ent"
      proof (cases pre)
        case Nil then show ?thesis using h by simp
      next
        case (Cons b pre') then show ?thesis using h True by auto
      qed
    next
      assume "a = ent"
      then have "a # spec = [] @ ent # spec \<and> (\<forall>e \<in> set []. \<not> matchesKeywords e hay) \<and> matchesKeywords ent hay"
        using True by simp
      then show "\<exists>pre post. a # spec = pre @ ent # post \<and> (\<forall>e \<in> set pre. \<not> matchesKeywords e hay)
        \<and> matchesKeywords ent hay" by blast
    qed
    then show ?thesis using True by auto
  next
    case False
    have "(\<exists>pre post. a # spec = pre @ ent # post \<and> (\<forall>e \<in> set pre. \<not> matchesKeywords e hay)
        \<and> matchesKeywords ent hay) \<longleftrightarrow> (\<exists>pre post. spec = pre @ ent # post \<and> (\<forall>e \<in> set pre. \<not> matchesKeywords e hay)
        \<and> matchesKeywords ent hay)" (is "?L \<longleftrightarrow> ?R")
    proof
      assume ?L
      then obtain pre post where h: "a # spec = pre @ ent # post" "\<forall>e \<in> set pre. \<not> matchesKeywords e hay" "matchesKeywords ent hay" by blast
      show ?R
      proof (cases pre)
        case Nil then show ?thesis using h False by simp
      next
        case (Cons b pre') then show ?thesis using h by auto
      qed
    next
      assume ?R
      then obtain pre post where h: "spec = pre @ ent # post" "\<forall>e \<in> set pre. \<not> matchesKeywords e hay" "matchesKeywords ent hay" by blast
      then have "a # spec = (a # pre) @ ent # post \<and> (\<forall>e \<in> set (a # pre). \<not> matchesKeywords e hay) \<and> matchesKeywords ent hay"
        using False by simp
      then show ?L by blast
    qed
    then show ?thesis using False Cons.IH by simp
  qed
qed

lemma matchesKeywords_iff:
  "matchesKeywords ent hay \<longleftrightarrow>
     (filter (\<lambda>k. k \<noteq> []) (map normalizeString (ent_keywords ent)) \<noteq> [] \<and>
      (if ent_matchAll ent
       then \<forall>k \<in> set (filter (\<lambda>k. k \<noteq> []) (map normalizeString (ent_keywords ent))).
              \<exists>p t. normalizeString hay = p @ k @ t
       else \<exists>k \<in> set (filter (\<lambda>k. k \<noteq> []) (map normalizeString (ent_keywords ent))).
              \<exists>p t. normalizeString hay = p @ k @ t))"
  unfolding matchesKeywords_def Let_def list_all_iff list_ex_iff includes_str_iff by auto

subsection \<open>Keyword precedence\<close>

text \<open>
  C7, as the specification states it, fails: a keyword is not looked for as it stands but
  after the same normalisation as the haystack. The rule \<open>Kick: ["Kick"]\<close> matches
  \<open>kick_01.wav\<close>, although \<open>Kick\<close> is no substring of the normalised name \<open>kick 01.wav\<close>.
\<close>

theorem keyword_match_as_specified_fails:
  "matchesKeywords
     \<lparr>ent_main = [], ent_category = ''Kick'', ent_keywords = [''Kick''], ent_matchAll = False\<rparr>
     ''kick_01.wav''
   \<and> \<not> spec_ruleSucceeds
     \<lparr>ent_main = [], ent_category = ''Kick'', ent_keywords = [''Kick''], ent_matchAll = False\<rparr>
     ''kick_01.wav''"
  by (simp add: matchesKeywords_def spec_ruleSucceeds_def normalizeKeywords_def
      normalizeString_def toLowerCase_def toLowerChar_def trim_def isSpace_def)

text \<open>
  C7, amended: the rules are scanned in their order against the file name and the first
  rule whose predicate succeeds gives the category; a rule succeeds iff, of its keywords
  normalised like the haystack (lower case, \<open>-\<close> and \<open>_\<close> as spaces, white space collapsed
  and trimmed) and not empty afterwards, there is at least one, and every one of them
  (\<open>matchAll\<close>) or one of them (otherwise) is a substring of the normalised file name; with
  the rules \<open>Kick: ["kick"]\<close>, \<open>Drums: ["kick", "snare"]\<close> in that order, \<open>kick_01.wav\<close> is
  a \<open>Kick\<close>.
\<close>

theorem classify_first_match_wins:
  "(firstMatch spec (toLowerCase fileName) = Some ent \<longleftrightarrow>
      (\<exists>pre post. spec = pre @ ent # post
         \<and> (\<forall>e \<in> set pre. \<not> matchesKeywords e (toLowerCase fileName))
         \<and> matchesKeywords ent (toLowerCase fileName)))
   \<and> (firstMatch spec (toLowerCase fileName) = Some ent \<longrightarrow>
        categoryMatch spec checkParentFolder fileName parentFolder = (Some ent, False))
   \<and> (matchesKeywords ent (toLowerCase fileName) \<longleftrightarrow>
        filter (\<lambda>k. k \<noteq> []) (map normalizeString (ent_keywords ent)) \<noteq> [] \<and>
        (if ent_matchAll ent
         then \<forall>k \<in> set (filter (\<lambda>k. k \<noteq> []) (map normalizeString (ent_keywords ent))).
                \<exists>p t. normalizeString fileName = p @ k @ t
         else \<exists>k \<in> set (filter (\<lambda>k. k \<noteq> []) (map normalizeString (ent_keywords ent))).
                \<exists>p t. normalizeString fileName = p @ k @ t))
   \<and> baseTargetRel (fst (categoryMatch
        [\<lparr>ent_main = [], ent_category = ''Kick'', ent_keywords = [''kick''],
           ent_matchAll = False\<rparr>,
         \<lparr>ent_main = [], ent_category = ''Drums'', ent_keywords = [''kick'', ''snare''],
           ent_matchAll = False\<rparr>]
        checkParentFolder ''kick_01.wav'' parentFolder)) = ''Kick''"
proof -
  have a: "firstMatch spec (toLowerCase fileName) = Some ent \<longleftrightarrow>
      (\<exists>pre post. spec = pre @ ent # post
         \<and> (\<forall>e \<in> set pre. \<not> matchesKeywords e (toLowerCase fileName))
         \<and> matchesKeywords ent (toLowerCase fileName))"
    by (rule firstMatch_Some_iff)
  have b: "firstMatch spec (toLowerCase fileName) = Some ent \<longrightarrow>
        categoryMatch spec checkParentFolder fileName parentFolder = (Some ent, False)"
    by (simp add: categoryMatch_def)
  have c: "matchesKeywords ent (toLowerCase fileName) \<longleftrightarrow>
        filter (\<lambda>k. k \<noteq> []) (map normalizeString (ent_keywords ent)) \<noteq> [] \<and>
        (if ent_matchAll ent
         then \<forall>k \<in> set (filter (\<lambda>k. k \<noteq> []) (map normalizeString (ent_keywords ent))).
                \<exists>p t. normalizeString fileName = p @ k @ t
         else \<exists>k \<in> set (filter (\<lambda>k. k \<noteq> []) (map normalizeString (ent_keywords ent))).
                \<exists>p t. normalizeString fileName = p @ k @ t)"
    using matchesKeywords_iff [of ent "toLowerCase fileName"]
    by (simp only: normalizeString_toLowerCase)
  have d: "baseTargetRel (fst (categoryMatch
        [\<lparr>ent_main = [], ent_category = ''Kick'', ent_keywords = [''kick''],
           ent_matchAll = False\<rparr>,
         \<lparr>ent_main = [], ent_category = ''Drums'', ent_keywords = [''kick'', ''snare''],
           ent_matchAll = False\<rparr>]
        checkParentFolder ''kick_01.wav'' parentFolder)) = ''Kick''"
    by (simp add: categoryMatch_def baseTargetRel_def matchesKeywords_def normalizeString_def
        toLowerCase_def toLowerChar_def trim_def isSpace_def)
  from a b c d show ?thesis by blast
qed

text \<open>
  The theorem at work: a rule whose only keyword is \<open>Hi-Hat\<close> is passed over for
  \<open>snare_02.wav\<close>, and the rule after it, \<open>Snare\<close>, gives the category.
\<close>

theorem classify_first_match_wins_witness:
  "firstMatch
     [\<lparr>ent_main = ''Drums'', ent_category = ''Hats'', ent_keywords = [''Hi-Hat''],
        ent_matchAll = True\<rparr>,
      \<lparr>ent_main = ''Drums'', ent_category = ''Snare'', ent_keywords = [''SNARE''],
        ent_matchAll = False\<rparr>]
     (toLowerCase ''Snare_02.wav'')
     = Some \<lparr>ent_main = ''Drums'', ent_category = ''Snare'', ent_keywords = [''SNARE''],
        ent_matchAll = False\<rparr>
   \<and> categoryMatch
     [\<lparr>ent_main = ''Drums'', ent_category = ''Hats'', ent_keywords = [''Hi-Hat''],
        ent_matchAll = True\<rparr>,
      \<lparr>ent_main = ''Drums'', ent_category = ''Snare'', ent_keywords = [''SNARE''],
        ent_matchAll = False\<rparr>]
     True ''Snare_02.wav'' ''Hi-Hat loops''
     = (Some \<lparr>ent_main = ''Drums'', ent_category = ''Snare'', ent_keywords = [''SNARE''],
        ent_matchAll = False\<rparr>, False)"
proof -
  let ?hats = "\<lparr>ent_main = ''Drums'', ent_category = ''Hats'', ent_keywords = [''Hi-Hat''],
        ent_matchAll = True\<rparr>"
  let ?snare = "\<lparr>ent_main = ''Drums'', ent_category = ''Snare'', ent_keywords = [''SNARE''],
        ent_matchAll = False\<rparr>"
  have m: "matchesKeywords ?snare (toLowerCase ''Snare_02.wav'')"
    by (simp add: matchesKeywords_def normalizeString_def toLowerCase_def toLowerChar_def
        trim_def isSpace_def)
  have n: "\<not> matchesKeywords ?hats (toLowerCase ''Snare_02.wav'')"
    by (simp add: matchesKeywords_def normalizeString_def toLowerCase_def toLowerChar_def
        trim_def isSpace_def)
  have "[?hats, ?snare] = [?hats] @ ?snare # []
        \<and> (\<forall>e \<in> set [?hats]. \<not> matchesKeywords e (toLowerCase ''Snare_02.wav''))
        \<and> matchesKeywords ?snare (toLowerCase ''Snare_02.wav'')"
    using m n by simp
  then have ex: "\<exists>pre post. [?hats, ?snare] = pre @ ?snare # post
        \<and> (\<forall>e \<in> set pre. \<not> matchesKeywords e (toLowerCase ''Snare_02.wav''))
        \<and> matchesKeywords ?snare (toLowerCase ''Snare_02.wav'')"
    by blast
  note t = classify_first_match_wins [of "[?hats, ?snare]" "''Snare_02.wav''" ?snare True
      "''Hi-Hat loops''"]
  from t ex have f: "firstMatch [?hats, ?snare] (toLowerCase ''Snare_02.wav'') = Some ?snare"
    by blast
  with t have "categoryMatch [?hats, ?snare] True ''Snare_02.wav'' ''Hi-Hat loops''
      = (Some ?snare, False)"
    by blast
  with f show ?thesis by blast
qed

subsection \<open>Moving and copying keep the other files\<close>

lemma map_of_setEntry: "map_of (setEntry k v es) = (map_of es)(k \<mapsto> v)"
  by (induction es) (auto simp: fun_eq_iff)

lemma map_of_delEntry: "map_of (delEntry k es) = (map_of es)(k := None)"
  by (induction es) (auto simp: delEntry_def fun_eq_iff)

lemma putPath_keeps_files:
  "putPath n d new = Some n' \<Longrightarrow> lookupPath n d = None \<Longrightarrow>
   lookupPath n q = Some (File c r) \<Longrightarrow> lookupPath n' q = Some (File c r)"
proof (induction d arbitrary: n n' q)
  case Nil
  then show ?case by simp
next
  case (Cons s ss)
  from Cons.prems(1) obtain es where n: "n = Dir es" by (cases n) auto
  from Cons.prems(3) n obtain t ts where q: "q = t # ts" by (cases q) auto
  from Cons.prems(3) n q obtain ch where ch: "map_of es t = Some ch" "lookupPath ch ts = Some (File c r)"
    by (auto split: option.splits)
  show ?case
  proof (cases "ss = []")
    case True
    then have n': "n' = Dir (setEntry s new es)" using Cons.prems(1) n by simp
    have "map_of es s = None" using Cons.prems(2) n True by (auto split: option.splits)
    then have "t \<noteq> s" using ch by auto
    then show ?thesis using n' q ch by (simp add: map_of_setEntry)
  next
    case False
    then obtain c0 c2 where c0: "map_of es s = Some c0" "putPath c0 ss new = Some c2"
        and n': "n' = Dir (setEntry s c2 es)"
      using Cons.prems(1) n by (auto split: option.splits)
    show ?thesis
    proof (cases "t = s")
      case True
      then have "ch = c0" using ch c0 by simp
      moreover have "lookupPath c0 ss = None" using Cons.prems(2) n c0 by simp
      ultimately have "lookupPath c2 ts = Some (File c r)" using Cons.IH c0 ch by blast
      then show ?thesis using n' q True by (simp add: map_of_setEntry)
    next
      case False
      then show ?thesis using n' q ch by (simp add: map_of_setEntry)
    qed
  qed
qed

lemma removePath_keeps_files:
  "lookupPath n q = Some (File c r) \<Longrightarrow> \<not> prefix s q \<Longrightarrow>
   lookupPath (removePath n s) q = Some (File c r)"
proof (induction s arbitrary: n q)
  case Nil
  then show ?case by simp
next
  case (Cons a ss)
  show ?case
  proof (cases n)
    case (File c' r')
    then show ?thesis using Cons.prems by simp
  next
    case (Dir es)
    from Cons.prems(1) Dir obtain t ts where q: "q = t # ts" by (cases q) auto
    from Cons.prems(1) Dir q obtain ch where ch: "map_of es t = Some ch" "lookupPath ch ts = Some (File c r)"
      by (auto split: option.splits)
    show ?thesis
    proof (cases "t = a")
      case True
      then have np: "\<not> prefix ss ts" and ssne: "ss \<noteq> []" using Cons.prems(2) q by auto
      then have "lookupPath (removePath ch ss) ts = Some (File c r)" using Cons.IH ch by blast
      then show ?thesis using Dir q True ch ssne by (simp add: map_of_setEntry)
    next
      case False
      then show ?thesis using Dir q ch
        by (auto simp: map_of_setEntry map_of_delEntry split: option.splits)
    qed
  qed
qed

lemma removePath_keeps_absent:
  "lookupPath n q = None \<Longrightarrow> lookupPath (removePath n s) q = None"
proof (induction s arbitrary: n q)
  case Nil
  then show ?case by simp
next
  case (Cons a ss)
  show ?case
  proof (cases n)
    case (File c' r')
    then show ?thesis using Cons.prems by simp
  next
    case (Dir es)
    from Cons.prems Dir obtain t ts where q: "q = t # ts" by (cases q) auto
    show ?thesis
    proof (cases "ss = []")
      case True
      then show ?thesis using Dir q Cons.prems
        by (auto simp: map_of_delEntry split: option.splits)
    next
      case ssne: False
      show ?thesis
      proof (cases "map_of es a")
        case None
        then show ?thesis using Dir q Cons.prems ssne by simp
      next
        case (Some ch)
        show ?thesis
        proof (cases "t = a")
          case True
          then have "lookupPath ch ts = None" using Cons.prems Dir q Some by simp
          then have "lookupPath (removePath ch ss) ts = None" by (rule Cons.IH)
          then show ?thesis using Dir q True Some ssne by (simp add: map_of_setEntry)
        next
          case False
          then show ?thesis using Dir q Some ssne Cons.prems
            by (auto simp: map_of_setEntry split: option.splits)
        qed
      qed
    qed
  qed
qed

lemma moveNode_not_EXDEV: "moveNode fs s d n \<noteq> Inl EXDEV"
  by (simp add: moveNode_def split: option.splits)

lemma renameSync_not_EXDEV: "renameSync fs src dest \<noteq> Inl EXDEV"
  by (simp add: renameSync_def Let_def moveNode_not_EXDEV split: option.splits node.splits)

lemma renameSync_keeps_files:
  assumes "renameSync fs src dest = Inr fs'" and "\<not> existsSync fs dest"
      and "lookupPath (fs_root fs) q = Some (File c r)" and "\<not> prefix (fsPath fs src) q"
  shows "lookupPath (fs_root fs') q = Some (File c r)"
proof -
  let ?s = "fsPath fs src" and ?d = "fsPath fs dest"
  have dn: "lookupPath (fs_root fs) ?d = None" using assms(2) by (simp add: existsSync_def)
  from assms(1) dn obtain n where
    "fs' = fs \<or> moveNode fs ?s ?d n = Inr fs'"
    by (auto simp: renameSync_def Let_def split: option.splits node.splits if_splits)
  then show ?thesis
  proof
    assume "fs' = fs" then show ?thesis using assms(3) by simp
  next
    assume "moveNode fs ?s ?d n = Inr fs'"
    then have p: "putPath (removePath (fs_root fs) ?s) ?d n = Some (fs_root fs')"
      by (auto simp: moveNode_def split: option.splits)
    have a: "lookupPath (removePath (fs_root fs) ?s) ?d = None"
      using dn by (rule removePath_keeps_absent)
    have b: "lookupPath (removePath (fs_root fs) ?s) q = Some (File c r)"
      using assms(3,4) by (rule removePath_keeps_files)
    from p a b show ?thesis by (rule putPath_keeps_files)
  qed
qed

lemma copyFileSync_keeps_files:
  assumes "copyFileSync fs src dest = Inr fs'" and "\<not> existsSync fs dest"
      and "lookupPath (fs_root fs) q = Some (File c r)"
  shows "lookupPath (fs_root fs') q = Some (File c r)"
proof -
  let ?d = "fsPath fs dest"
  have dn: "lookupPath (fs_root fs) ?d = None" using assms(2) by (simp add: existsSync_def)
  from assms(1) dn obtain c0 where p: "putPath (fs_root fs) ?d (File c0 True) = Some (fs_root fs')"
    by (auto simp: copyFileSync_def Let_def split: option.splits node.splits if_splits)
  from p dn assms(3) show ?thesis by (rule putPath_keeps_files)
qed

lemma moveOrCopySync_keeps_files:
  assumes "moveOrCopySync fs src dest move = Inr fs'" and "\<not> existsSync fs dest"
      and "lookupPath (fs_root fs) q = Some (File c r)"
      and "move \<longrightarrow> \<not> prefix (fsPath fs src) q"
  shows "lookupPath (fs_root fs') q = Some (File c r)"
proof (cases move)
  case True
  then have "renameSync fs src dest = Inr fs'"
    using assms(1) renameSync_not_EXDEV [of fs src dest]
    by (auto simp: moveOrCopySync_def split: sum.splits if_splits)
  then show ?thesis using assms True by (auto intro: renameSync_keeps_files)
next
  case False
  then have "copyFileSync fs src dest = Inr fs'" using assms(1) by (simp add: moveOrCopySync_def)
  then show ?thesis using assms by (auto intro: copyFileSync_keeps_files)
qed

subsection \<open>Unique destination paths\<close>

lemma uniqueLoop_spec:
  "\<not> existsSync fs (uniqueLoop fs dir f c i)
   \<and> (if existsSync fs c
      then \<exists>k. i \<le> k \<and> uniqueLoop fs dir f c i = destCandidate dir f k
               \<and> (\<forall>j. i \<le> j \<and> j < k \<longrightarrow> existsSync fs (destCandidate dir f j))
      else uniqueLoop fs dir f c i = c)"
proof (induction fs dir f c i rule: uniqueLoop.induct)
  case (1 fs dir f c i)
  show ?case
  proof (cases "existsSync fs c")
    case False
    then show ?thesis by (subst (1 2) uniqueLoop.simps) simp
  next
    case True
    let ?r = "uniqueLoop fs dir f (destCandidate dir f i) (Suc i)"
    have u: "uniqueLoop fs dir f c i = ?r" using True by (subst uniqueLoop.simps) simp
    have ih: "\<not> existsSync fs ?r
       \<and> (if existsSync fs (destCandidate dir f i)
          then \<exists>k. Suc i \<le> k \<and> ?r = destCandidate dir f k
               \<and> (\<forall>j. Suc i \<le> j \<and> j < k \<longrightarrow> existsSync fs (destCandidate dir f j))
          else ?r = destCandidate dir f i)"
      using 1 True by blast
    have "\<exists>k. i \<le> k \<and> ?r = destCandidate dir f k
               \<and> (\<forall>j. i \<le> j \<and> j < k \<longrightarrow> existsSync fs (destCandidate dir f j))"
    proof (cases "existsSync fs (destCandidate dir f i)")
      case False
      then have "i \<le> i \<and> ?r = destCandidate dir f i
          \<and> (\<forall>j. i \<le> j \<and> j < i \<longrightarrow> existsSync fs (destCandidate dir f j))"
        using ih by auto
      then show ?thesis by blast
    next
      case ex: True
      then obtain k where k: "Suc i \<le> k" "?r = destCandidate dir f k"
          "\<forall>j. Suc i \<le> j \<and> j < k \<longrightarrow> existsSync fs (destCandidate dir f j)"
        using ih by auto
      have "\<forall>j. i \<le> j \<and> j < k \<longrightarrow> existsSync fs (destCandidate dir f j)"
      proof (intro allI impI)
        fix j assume j: "i \<le> j \<and> j < k"
        show "existsSync fs (destCandidate dir f j)"
        proof (cases "j = i")
          case True then show ?thesis using ex by simp
        next
          case False
          then have "Suc i \<le> j" using j by simp
          then show ?thesis using k(3) j by blast
        qed
      qed
      then have "i \<le> k \<and> ?r = destCandidate dir f k
          \<and> (\<forall>j. i \<le> j \<and> j < k \<longrightarrow> existsSync fs (destCandidate dir f j))"
        using k by simp
      then show ?thesis by blast
    qed
    then show ?thesis using True u ih by simp
  qed
qed

text \<open>
  C1: \<^verbatim>\<open>uniqueDestPath(dir, f)\<close> returns a path that does not exist: \<open>dir/f\<close> when that is
  free, otherwise the first free one of \<open>dir/base (2)ext\<close>, \<open>dir/base (3)ext\<close>, ..., the
  counter going up by one from 2; hence a move or copy to the path it returns leaves the
  content of every file that existed (other than the moved source) as it was.
\<close>

theorem uniqueDestPath_never_taken:
  "\<not> existsSync fs (uniqueDestPath fs dir file)
   \<and> (\<not> existsSync fs (path_join [dir, file]) \<longrightarrow>
        uniqueDestPath fs dir file = path_join [dir, file])
   \<and> (existsSync fs (path_join [dir, file]) \<longrightarrow>
        (\<exists>k. 2 \<le> k \<and> uniqueDestPath fs dir file = destCandidate dir file k
           \<and> (\<forall>j. 2 \<le> j \<and> j < k \<longrightarrow> existsSync fs (destCandidate dir file j))))
   \<and> (\<forall>src move fs' q c r.
        moveOrCopySync fs src (uniqueDestPath fs dir file) move = Inr fs'
        \<and> lookupPath (fs_root fs) q = Some (File c r)
        \<and> (move \<longrightarrow> \<not> prefix (fsPath fs src) q)
        \<longrightarrow> lookupPath (fs_root fs') q = Some (File c r))"
proof -
  note s = uniqueLoop_spec [of fs dir "file" "path_join [dir, file]" 2]
  have free: "\<not> existsSync fs (uniqueDestPath fs dir file)"
    using s by (simp add: uniqueDestPath_def)
  have first: "\<not> existsSync fs (path_join [dir, file]) \<longrightarrow>
        uniqueDestPath fs dir file = path_join [dir, file]"
    using s by (simp add: uniqueDestPath_def)
  have later: "existsSync fs (path_join [dir, file]) \<longrightarrow>
        (\<exists>k. 2 \<le> k \<and> uniqueDestPath fs dir file = destCandidate dir file k
           \<and> (\<forall>j. 2 \<le> j \<and> j < k \<longrightarrow> existsSync fs (destCandidate dir file j)))"
    using s by (simp add: uniqueDestPath_def)
  have keep: "\<forall>src move fs' q c r.
        moveOrCopySync fs src (uniqueDestPath fs dir file) move = Inr fs'
        \<and> lookupPath (fs_root fs) q = Some (File c r)
        \<and> (move \<longrightarrow> \<not> prefix (fsPath fs src) q)
        \<longrightarrow> lookupPath (fs_root fs') q = Some (File c r)"
    using free by (blast intro: moveOrCopySync_keeps_files)
  from free first later keep show ?thesis by blast
qed

text \<open>
  The theorem at work: \<open>/d\<close> holds \<open>a.wav\<close> and \<open>a (2).wav\<close>; the file \<open>/s/a.wav\<close> goes to
  \<open>/d/a (3).wav\<close> and \<open>/d/a.wav\<close> keeps its content.
\<close>

theorem uniqueDestPath_never_taken_witness:
  "uniqueDestPath
     \<lparr>fs_root = Dir [(''d'', Dir [(''a.wav'', File ''old'' True), (''a (2).wav'', File ''older'' True)]),
                     (''s'', Dir [(''a.wav'', File ''new'' True)])], fs_cwd = ''/''\<rparr>
     ''/d'' ''a.wav'' = ''/d/a (3).wav''
   \<and> moveOrCopySync
     \<lparr>fs_root = Dir [(''d'', Dir [(''a.wav'', File ''old'' True), (''a (2).wav'', File ''older'' True)]),
                     (''s'', Dir [(''a.wav'', File ''new'' True)])], fs_cwd = ''/''\<rparr>
     ''/s/a.wav'' ''/d/a (3).wav'' True
     = Inr \<lparr>fs_root = Dir [(''d'', Dir [(''a.wav'', File ''old'' True), (''a (2).wav'', File ''older'' True),
                                        (''a (3).wav'', File ''new'' True)]),
                     (''s'', Dir [])], fs_cwd = ''/''\<rparr>
   \<and> lookupPath (Dir [(''d'', Dir [(''a.wav'', File ''old'' True), (''a (2).wav'', File ''older'' True),
                                        (''a (3).wav'', File ''new'' True)]),
                     (''s'', Dir [])]) [''d'', ''a.wav''] = Some (File ''old'' True)"
proof -
  let ?fs = "\<lparr>fs_root = Dir [(''d'', Dir [(''a.wav'', File ''old'' True), (''a (2).wav'', File ''older'' True)]),
                     (''s'', Dir [(''a.wav'', File ''new'' True)])], fs_cwd = ''/''\<rparr>"
  let ?fs' = "\<lparr>fs_root = Dir [(''d'', Dir [(''a.wav'', File ''old'' True), (''a (2).wav'', File ''older'' True),
                                        (''a (3).wav'', File ''new'' True)]),
                     (''s'', Dir [])], fs_cwd = ''/''\<rparr>"
  have taken: "existsSync ?fs (path_join [''/d'', ''a.wav''])" by code_simp
  have taken2: "existsSync ?fs (destCandidate ''/d'' ''a.wav'' 2)" by code_simp
  have c3: "destCandidate ''/d'' ''a.wav'' 3 = ''/d/a (3).wav''" by code_simp
  have u: "uniqueDestPath ?fs ''/d'' ''a.wav'' = ''/d/a (3).wav''" by code_simp
  have m: "moveOrCopySync ?fs ''/s/a.wav'' ''/d/a (3).wav'' True = Inr ?fs'" by code_simp
  have l: "lookupPath (fs_root ?fs) [''d'', ''a.wav''] = Some (File ''old'' True)" by code_simp
  have np: "\<not> prefix (fsPath ?fs ''/s/a.wav'') [''d'', ''a.wav'']" by code_simp
  note t = uniqueDestPath_never_taken [of ?fs "''/d''" "''a.wav''"]
  from t have "\<forall>src move fs' q c r.
        moveOrCopySync ?fs src (uniqueDestPath ?fs ''/d'' ''a.wav'') move = Inr fs'
        \<and> lookupPath (fs_root ?fs) q = Some (File c r)
        \<and> (move \<longrightarrow> \<not> prefix (fsPath ?fs src) q)
        \<longrightarrow> lookupPath (fs_root fs') q = Some (File c r)"
    by blast
  then have "lookupPath (fs_root ?fs') [''d'', ''a.wav''] = Some (File ''old'' True)"
    using m l np u by metis
  then show ?thesis using u m by simp
qed

subsection \<open>Tempo placement\<close>

text \<open>
  No name is a tempo folder's and a key folder's at once: the first starts with a digit,
  the second with a letter.
\<close>

lemma tempo_and_key_names_disjoint: "\<not> (isBpmDirName name \<and> isKeyDirName name)"
proof
  assume a: "isBpmDirName name \<and> isKeyDirName name"
  then obtain c r where n: "name = c # r" and k: "toLowerChar c \<in> set ''abcdefg''"
    by (cases name) (auto simp: isKeyDirName_def)
  from a have "takeWhile isDigit name \<noteq> []"
    by (auto simp: isBpmDirName_def bpmDirDigits_def Let_def split: if_splits)
  then have "isDigit c" using n by (auto split: if_splits)
  then show False using k by (auto simp: isDigit_def toLowerChar_def)
qed

text \<open>
  So the early return of \<^verbatim>\<open>moveFileToBPMFolder\<close> is never taken when a key is asked for: it
  wants the file's directory to carry a tempo name and a key name.
\<close>

lemma key_check_never_holds:
  "getParentBpmValue file = Some b \<Longrightarrow> \<not> isKeyDirName (path_basename (path_dirname file))"
  using tempo_and_key_names_disjoint [of "path_basename (path_dirname file)"]
  by (auto simp: getParentBpmValue_def isBpmDirName_def split: option.splits)

lemma placeTempo_with_key_always_acts:
  assumes "keyValue \<noteq> []" and "sanitizeKey keyValue \<noteq> []"
  shows "moveFileToBPMFolder fs file (Some n) keyValue False =
     (case mkdirSync fs (path_join [path_join [firstNonBpmAncestorDir file, showInt n @ '' BPM''],
                                     sanitizeKey keyValue]) of
        Inl e \<Rightarrow> Inl e
      | Inr fs1 \<Rightarrow>
          (case moveOrCopySync_bpm fs1 file
                  (uniqueDestPath fs1
                     (path_join [path_join [firstNonBpmAncestorDir file, showInt n @ '' BPM''],
                                 sanitizeKey keyValue])
                     (path_basename file)) of
             Inl e \<Rightarrow> Inl e
           | Inr fs2 \<Rightarrow>
               Inr (Some (uniqueDestPath fs1
                     (path_join [path_join [firstNonBpmAncestorDir file, showInt n @ '' BPM''],
                                 sanitizeKey keyValue])
                     (path_basename file)), fs2)))"
  using assms key_check_never_holds [of "file"]
  by (auto simp: moveFileToBPMFolder_def Let_def split: option.splits sum.splits)

text \<open>Without a key, a file whose directory is the tempo folder asked for is not touched.\<close>

lemma placeTempo_without_key_in_place:
  assumes "getParentBpmValue file = Some b" and "int b = n"
  shows "\<exists>p. moveFileToBPMFolder fs file (Some n) [] dryRun = Inr (Some p, fs)"
  using assms by (simp add: moveFileToBPMFolder_def Let_def)

text \<open>
  C3 fails on the code when a key is given. The first call puts \<open>/lib/Kick/loop.wav\<close> into
  \<open>/lib/Kick/120 BPM/A Min\<close>; the second call, on the path the first returned and with
  the same tempo and key, moves the file again, into
  \<open>/lib/Kick/120 BPM/A Min/120 BPM/A Min\<close>.
\<close>

theorem placeTempo_with_key_moves_again:
  "moveFileToBPMFolder
     \<lparr>fs_root = Dir [(''lib'', Dir [(''Kick'', Dir [(''loop.wav'', File ''x'' True)])])],
      fs_cwd = ''/''\<rparr>
     ''/lib/Kick/loop.wav'' (Some 120) ''A Min'' False
   = Inr (Some ''/lib/Kick/120 BPM/A Min/loop.wav'',
       \<lparr>fs_root = Dir [(''lib'', Dir [(''Kick'', Dir [(''120 BPM'',
          Dir [(''A Min'', Dir [(''loop.wav'', File ''x'' True)])])])])],
        fs_cwd = ''/''\<rparr>)
   \<and> moveFileToBPMFolder
     \<lparr>fs_root = Dir [(''lib'', Dir [(''Kick'', Dir [(''120 BPM'',
          Dir [(''A Min'', Dir [(''loop.wav'', File ''x'' True)])])])])],
      fs_cwd = ''/''\<rparr>
     ''/lib/Kick/120 BPM/A Min/loop.wav'' (Some 120) ''A Min'' False
   = Inr (Some ''/lib/Kick/120 BPM/A Min/120 BPM/A Min/loop.wav'',
       \<lparr>fs_root = Dir [(''lib'', Dir [(''Kick'', Dir [(''120 BPM'',
          Dir [(''A Min'', Dir [(''120 BPM'',
            Dir [(''A Min'', Dir [(''loop.wav'', File ''x'' True)])])])])])])],
        fs_cwd = ''/''\<rparr>)"
  by code_simp

subsection \<open>What the stages of \<^verbatim>\<open>categorizeFile\<close> leave alone\<close>

lemma send_fields [simp]:
  "st_fs (send m s st) = st_fs st" "st_map (send m s st) = st_map st"
  "st_cancel (send m s st) = st_cancel st" "st_log (send m s st) = st_log st @ [(m, s)]"
  by (simp_all add: send_def)

lemma readCancel_fields:
  "st_fs (snd (readCancel st)) = st_fs st" "st_map (snd (readCancel st)) = st_map st"
  "st_log (snd (readCancel st)) = st_log st"
  by (simp_all add: readCancel_def split: option.splits nat.splits)

lemma lengthStage_fields:
  "st_fs (snd (lengthStage env config fullPath fileName targetRel st)) = st_fs st"
  "st_map (snd (lengthStage env config fullPath fileName targetRel st)) = st_map st"
  "st_cancel (snd (lengthStage env config fullPath fileName targetRel st)) = st_cancel st"
  by (simp_all add: lengthStage_def Let_def split: durationResult.splits)

lemma lengthStage_log:
  "\<exists>l. st_log (snd (lengthStage env config fullPath fileName targetRel st)) = st_log st @ l"
  by (simp add: lengthStage_def Let_def split: durationResult.splits)

lemma lengthStage_depends_on_fs:
  "st_fs st = st_fs st' \<Longrightarrow>
   fst (lengthStage env config fullPath fileName targetRel st)
     = fst (lengthStage env config fullPath fileName targetRel st')"
  by (simp add: lengthStage_def Let_def split: durationResult.splits)

lemma classify_fields:
  "st_fs (snd (classify env config fullPath fileName parentFolder isMidi st)) = st_fs st"
  "st_map (snd (classify env config fullPath fileName parentFolder isMidi st)) = st_map st"
  "st_cancel (snd (classify env config fullPath fileName parentFolder isMidi st)) = st_cancel st"
  by (simp_all add: classify_def Let_def case_prod_beta lengthStage_fields)

lemma classify_log:
  "\<exists>l. st_log (snd (classify env config fullPath fileName parentFolder isMidi st)) = st_log st @ l"
  using lengthStage_log by (simp add: classify_def Let_def case_prod_beta)

lemma classify_depends_on_fs:
  assumes "st_fs st = st_fs st'"
  shows "fst (classify env config fullPath fileName parentFolder isMidi st)
     = fst (classify env config fullPath fileName parentFolder isMidi st')"
  using assms lengthStage_depends_on_fs [OF assms]
  by (simp add: classify_def Let_def case_prod_beta lengthStage_fields)

lemma place_fields:
  "st_map (snd (place config fullPath fileName targetPath logExtra st)) = st_map st"
  "st_cancel (snd (place config fullPath fileName targetPath logExtra st)) = st_cancel st"
  by (simp_all add: place_def Let_def split: prod.splits sum.splits)

lemma place_log:
  "\<exists>l. st_log (snd (place config fullPath fileName targetPath logExtra st)) = st_log st @ l"
  by (simp add: place_def Let_def split: prod.splits sum.splits)

lemma place_depends_on_fs:
  assumes "st_fs st = st_fs st'"
  shows "fst (place config fullPath fileName targetPath logExtra st)
           = fst (place config fullPath fileName targetPath logExtra' st')"
    and "st_fs (snd (place config fullPath fileName targetPath logExtra st))
           = st_fs (snd (place config fullPath fileName targetPath logExtra' st'))"
  using assms by (simp_all add: place_def Let_def split: prod.splits sum.splits)

lemma classifyAndPlace_fields:
  "st_map (snd (classifyAndPlace env config fullPath fileName parentFolder isMidi st)) = st_map st"
  "st_cancel (snd (classifyAndPlace env config fullPath fileName parentFolder isMidi st)) = st_cancel st"
  by (simp_all add: classifyAndPlace_def case_prod_beta place_fields classify_fields)

lemma classifyAndPlace_log:
  "\<exists>l. st_log (snd (classifyAndPlace env config fullPath fileName parentFolder isMidi st))
        = st_log st @ l"
proof -
  let ?c = "classify env config fullPath fileName parentFolder isMidi st"
  obtain l1 where l1: "st_log (snd ?c) = st_log st @ l1" using classify_log by blast
  obtain l2 where "st_log (snd (place config fullPath fileName (fst (fst ?c)) (snd (fst ?c)) (snd ?c)))
      = st_log (snd ?c) @ l2" using place_log by blast
  then have "st_log (snd (classifyAndPlace env config fullPath fileName parentFolder isMidi st))
      = st_log st @ (l1 @ l2)"
    using l1 by (simp add: classifyAndPlace_def case_prod_beta)
  then show ?thesis by blast
qed

lemma classifyAndPlace_depends_on_fs:
  assumes "st_fs st = st_fs st'"
  shows "fst (classifyAndPlace env config fullPath fileName parentFolder isMidi st)
           = fst (classifyAndPlace env config fullPath fileName parentFolder isMidi st')"
    and "st_fs (snd (classifyAndPlace env config fullPath fileName parentFolder isMidi st))
           = st_fs (snd (classifyAndPlace env config fullPath fileName parentFolder isMidi st'))"
proof -
  let ?c = "classify env config fullPath fileName parentFolder isMidi st"
  let ?c' = "classify env config fullPath fileName parentFolder isMidi st'"
  have t: "fst ?c = fst ?c'" using assms by (rule classify_depends_on_fs)
  have f: "st_fs (snd ?c) = st_fs (snd ?c')" using assms by (simp add: classify_fields)
  show "fst (classifyAndPlace env config fullPath fileName parentFolder isMidi st)
           = fst (classifyAndPlace env config fullPath fileName parentFolder isMidi st')"
    using place_depends_on_fs(1) [OF f] t by (simp add: classifyAndPlace_def case_prod_beta)
  show "st_fs (snd (classifyAndPlace env config fullPath fileName parentFolder isMidi st))
           = st_fs (snd (classifyAndPlace env config fullPath fileName parentFolder isMidi st'))"
    using place_depends_on_fs(2) [OF f] t by (simp add: classifyAndPlace_def case_prod_beta)
qed

subsection \<open>A dry run leaves the file system alone\<close>

lemma handleDuplicate_dryRun:
  "cfg_dryRun config \<Longrightarrow>
   handleDuplicate config dedupe fullPath fileName firstSeen st
     = (True, send (DryRunDuplicate fileName (path_basename firstSeen)) LWarning st)"
  by (simp add: handleDuplicate_def)

lemma dedupeStage_dryRun_fs:
  "cfg_dryRun config \<Longrightarrow>
   st_fs (snd (dedupeStage env config dedupe fullPath fileName st)) = st_fs st"
  by (simp add: dedupeStage_def handleDuplicate_dryRun case_prod_beta readCancel_fields
      split: sum.splits option.splits)

lemma place_dryRun:
  "cfg_dryRun config \<Longrightarrow>
   place config fullPath fileName targetPath logExtra st
     = (Record fullPath (path_join [targetPath, fileName]),
        send (Placed True (cfg_moveFiles config) fileName (path_join [targetPath, fileName])
                logExtra) LSuccess st)"
  by (simp add: place_def Let_def)

lemma classifyAndPlace_dryRun_fs:
  "cfg_dryRun config \<Longrightarrow>
   st_fs (snd (classifyAndPlace env config fullPath fileName parentFolder isMidi st)) = st_fs st"
  by (simp add: classifyAndPlace_def case_prod_beta place_dryRun classify_fields)

lemma categorizeFile_dryRun_fs:
  "cfg_dryRun config \<Longrightarrow> st_fs (snd (categorizeFile env fullPath config dedupe st)) = st_fs st"
proof -
  assume d: "cfg_dryRun config"
  obtain b st1 where ds: "dedupeStage env config dedupe fullPath (path_basename fullPath) st = (b, st1)"
    by (cases "dedupeStage env config dedupe fullPath (path_basename fullPath) st")
  have "st_fs st1 = st_fs st"
    using dedupeStage_dryRun_fs [OF d, of env dedupe fullPath "path_basename fullPath" st] ds by simp
  then show ?thesis
    using ds d by (cases b) (simp_all add: categorizeFile_def Let_def classifyAndPlace_dryRun_fs)
qed

lemma processArchive_dryRun_fs:
  "cfg_dryRun config \<Longrightarrow>
   st_fs (snd (processArchive env config dedupe fullPath fileName ext moved st)) = st_fs st"
  by (simp add: processArchive_def)

lemma processFiles_dryRun_fs:
  "cfg_dryRun config \<Longrightarrow>
   st_fs (snd (processFiles env config dedupe files moved st)) = st_fs st"
proof (induction files arbitrary: moved st)
  case Nil
  then show ?case by simp
next
  case (Cons fullPath rest)
  obtain c st0 where rc: "readCancel st = (c, st0)" by (cases "readCancel st")
  then have f0: "st_fs st0 = st_fs st" using readCancel_fields(1) [of st] by simp
  show ?case
  proof (cases c)
    case True
    then show ?thesis using rc f0 by simp
  next
    case False
    show ?thesis
    proof (cases "getExt fullPath = ''zip'' \<or> getExt fullPath = ''rar''")
      case True
      obtain m1 st1 where pa: "processArchive env config dedupe fullPath (path_basename fullPath)
          (getExt fullPath) moved st0 = (m1, st1)"
        by (cases "processArchive env config dedupe fullPath (path_basename fullPath)
              (getExt fullPath) moved st0")
      then have "st_fs st1 = st_fs st0"
        using processArchive_dryRun_fs [OF Cons.prems, of env dedupe fullPath
            "path_basename fullPath" "getExt fullPath" moved st0]
        by simp
      then show ?thesis using rc False True pa f0 Cons.IH [OF Cons.prems, of m1 st1]
        by (simp add: Let_def)
    next
      case nz: False
      obtain r st1 where cf: "categorizeFile env fullPath config dedupe st0 = (r, st1)"
        by (cases "categorizeFile env fullPath config dedupe st0")
      then have "st_fs st1 = st_fs st0"
        using categorizeFile_dryRun_fs [OF Cons.prems, of env fullPath dedupe st0] by simp
      then show ?thesis using rc False nz cf f0 Cons.IH [OF Cons.prems, of "pushRecord r moved" st1]
        by (simp add: Let_def)
    qed
  qed
qed

lemma seedLoop_fs:
  "st_fs (snd (seedLoop env config dedupe files seeded st)) = st_fs st"
proof (induction files arbitrary: seeded st)
  case Nil
  then show ?case by simp
next
  case (Cons f rest)
  obtain c st0 where rc: "readCancel st = (c, st0)" by (cases "readCancel st")
  then have f0: "st_fs st0 = st_fs st" using readCancel_fields(1) [of st] by simp
  show ?case using rc f0 Cons.IH
    by (simp split: sum.splits)
qed

lemma seedStage_fs: "st_fs (snd (seedStage env config dedupe st)) = st_fs st"
  by (simp add: seedStage_def seedLoop_fs readCancel_fields case_prod_beta split: sum.splits)

lemma organize_dryRun_fs:
  assumes "cfg_dryRun config"
  shows "st_fs (snd (organize env config st)) = st_fs st"
proof -
  let ?config = "config\<lparr>cfg_flatCategories :=
       flattenMainCategories (cfg_mainCategories config) (cfg_categories config)\<rparr>"
  have dr: "cfg_dryRun ?config" using assms(1) by simp
  note pf = processFiles_dryRun_fs [OF dr]
  have sf: "st_fs (snd (seedStage env ?config (mkDedupe ?config) st)) = st_fs st"
    by (rule seedStage_fs)
  obtain r st3 where ss: "seedStage env ?config (mkDedupe ?config) st = (r, st3)"
    by (cases "seedStage env ?config (mkDedupe ?config) st")
  then have f3: "st_fs st3 = st_fs st" using sf by simp
  show ?thesis
    using dr ss f3
    by (auto simp: organize_def Let_def case_prod_beta pf split: sum.splits bool.splits)
qed

subsection \<open>Dry run\<close>

text \<open>
  C6, as the specification states it, fails. Two files of one name go to one folder: the
  dry run plans and logs \<open>/d/Miscellaneous/x.wav\<close> for both, the real run gives the second
  one \<open>/d/Miscellaneous/x (2).wav\<close>.
\<close>

theorem dry_run_log_differs_from_real_run:
  "fst (startOrganizing plainEnv (plainConfig\<lparr>cfg_dryRun := True\<rparr>) (freshState twoTwins))
     = Inr (Some \<lparr>done_destDir = ''/d'', done_dryRun = True,
                  done_newFiles = [(''/s/a/x.wav'', ''/d/Miscellaneous/x.wav''),
                                   (''/s/b/x.wav'', ''/d/Miscellaneous/x.wav'')]\<rparr>)
   \<and> st_log (snd (startOrganizing plainEnv (plainConfig\<lparr>cfg_dryRun := True\<rparr>)
                    (freshState twoTwins)))
     = [(StartingProcessing, LWarning), (FoundFiles 2, LInfo),
        (Placed True True ''x.wav'' ''/d/Miscellaneous/x.wav'' [], LSuccess),
        (Placed True True ''x.wav'' ''/d/Miscellaneous/x.wav'' [], LSuccess)]
   \<and> fst (startOrganizing plainEnv plainConfig (freshState twoTwins))
     = Inr (Some \<lparr>done_destDir = ''/d'', done_dryRun = False,
                  done_newFiles = [(''/s/a/x.wav'', ''/d/Miscellaneous/x.wav''),
                                   (''/s/b/x.wav'', ''/d/Miscellaneous/x (2).wav'')]\<rparr>)
   \<and> st_log (snd (startOrganizing plainEnv plainConfig (freshState twoTwins)))
     = [(StartingProcessing, LWarning), (FoundFiles 2, LInfo),
        (Placed False True ''x.wav'' ''/d/Miscellaneous/x.wav'' [], LSuccess),
        (Placed False True ''x.wav'' ''/d/Miscellaneous/x (2).wav'' [], LSuccess)]"
  by code_simp

text \<open>
  Besides, \<^verbatim>\<open>startOrganizing\<close> makes the destination directory before it looks at
  \<^verbatim>\<open>dryRun\<close>: a dry run on a destination that does not exist creates it.
\<close>

lemma dry_run_creates_missing_destination:
  "\<not> existsSync (st_fs (freshState (Dir [(''s'', Dir [(''kick.wav'', File ''abc'' True)])]))) ''/d''
   \<and> st_fs (snd (startOrganizing plainEnv (plainConfig\<lparr>cfg_dryRun := True\<rparr>)
        (freshState (Dir [(''s'', Dir [(''kick.wav'', File ''abc'' True)])]))))
     = \<lparr>fs_root = Dir [(''s'', Dir [(''kick.wav'', File ''abc'' True)]), (''d'', Dir [])],
        fs_cwd = ''/''\<rparr>"
  by code_simp

lemma classify_ignores_dryRun:
  "classify env (config\<lparr>cfg_dryRun := b\<rparr>) fullPath fileName parentFolder isMidi st
     = classify env config fullPath fileName parentFolder isMidi st"
  by (simp add: classify_def lengthStage_def packLabelOf_def midiRootName_def
      cong: if_cong prod.case_cong durationResult.case_cong)

lemma place_real_dest:
  assumes "\<not> cfg_dryRun config"
      and "fst (place config fullPath fileName targetPath logExtra st) = Record src dest"
  shows "src = fullPath \<and> (\<exists>fs1. mkdirSync (st_fs st) targetPath = Inr fs1
           \<and> dest = uniqueDestPath fs1 targetPath fileName
           \<and> (\<not> existsSync fs1 (path_join [targetPath, fileName])
                \<longrightarrow> dest = path_join [targetPath, fileName]))"
proof -
  from assms obtain fs1 where m: "mkdirSync (st_fs st) targetPath = Inr fs1"
      and d: "dest = uniqueDestPath fs1 targetPath fileName" and s: "src = fullPath"
    by (auto simp: place_def moveInto_def Let_def split: sum.splits prod.splits)
  have "\<not> existsSync fs1 (path_join [targetPath, fileName])
                \<longrightarrow> dest = path_join [targetPath, fileName]"
    using d uniqueLoop_spec [of fs1 targetPath fileName "path_join [targetPath, fileName]" 2]
    by (simp add: uniqueDestPath_def)
  with m d s show ?thesis by blast
qed

text \<open>
  C6, amended: with \<^verbatim>\<open>dryRun\<close> on and the destination root in place, a whole run leaves
  the file system as it was, whatever the run ends with, and so does every call of
  \<^verbatim>\<open>categorizeFile\<close>; the target directory of a file is classified as in a real run,
  the path logged and returned for it is \<open>target/name\<close>, and a real run on the same state
  puts the file at the first free candidate of \<^verbatim>\<open>uniqueDestPath\<close> for that target and
  name, which is \<open>target/name\<close> when that is free.
\<close>

theorem dry_run_changes_nothing:
  assumes "cfg_dryRun config" and "existsSync (st_fs st) (cfg_destDir config)"
  shows "st_fs (snd (startOrganizing env config st)) = st_fs st
     \<and> st_fs (snd (categorizeFile env fullPath config dedupe st0)) = st_fs st0
     \<and> classify env (config\<lparr>cfg_dryRun := False\<rparr>) fullPath fileName parentFolder isMidi st0
         = classify env config fullPath fileName parentFolder isMidi st0
     \<and> place config fullPath fileName targetPath logExtra st0
         = (Record fullPath (path_join [targetPath, fileName]),
            send (Placed True (cfg_moveFiles config) fileName (path_join [targetPath, fileName])
                    logExtra) LSuccess st0)
     \<and> (\<forall>src dest.
          fst (place (config\<lparr>cfg_dryRun := False\<rparr>) fullPath fileName targetPath logExtra st0)
            = Record src dest \<longrightarrow>
          (\<exists>fs1. mkdirSync (st_fs st0) targetPath = Inr fs1
             \<and> dest = uniqueDestPath fs1 targetPath fileName
             \<and> (\<not> existsSync fs1 (path_join [targetPath, fileName])
                  \<longrightarrow> dest = path_join [targetPath, fileName])))"
proof -
  have a: "st_fs (snd (startOrganizing env config st)) = st_fs st"
    using assms organize_dryRun_fs [OF assms(1), of env st]
    by (simp add: startOrganizing_def)
  have b: "st_fs (snd (categorizeFile env fullPath config dedupe st0)) = st_fs st0"
    using assms(1) by (rule categorizeFile_dryRun_fs)
  have c: "classify env (config\<lparr>cfg_dryRun := False\<rparr>) fullPath fileName parentFolder isMidi st0
         = classify env config fullPath fileName parentFolder isMidi st0"
    by (rule classify_ignores_dryRun)
  have d: "place config fullPath fileName targetPath logExtra st0
         = (Record fullPath (path_join [targetPath, fileName]),
            send (Placed True (cfg_moveFiles config) fileName (path_join [targetPath, fileName])
                    logExtra) LSuccess st0)"
    using assms(1) by (rule place_dryRun)
  have e: "\<forall>src dest.
          fst (place (config\<lparr>cfg_dryRun := False\<rparr>) fullPath fileName targetPath logExtra st0)
            = Record src dest \<longrightarrow>
          (\<exists>fs1. mkdirSync (st_fs st0) targetPath = Inr fs1
             \<and> dest = uniqueDestPath fs1 targetPath fileName
             \<and> (\<not> existsSync fs1 (path_join [targetPath, fileName])
                  \<longrightarrow> dest = path_join [targetPath, fileName]))"
    using place_real_dest [of "config\<lparr>cfg_dryRun := False\<rparr>" fullPath fileName targetPath logExtra st0]
    by simp
  from a b c d e show ?thesis by blast
qed

text \<open>The theorem at work on the two files of one name, in a dry run.\<close>

theorem dry_run_changes_nothing_witness:
  "cfg_dryRun (plainConfig\<lparr>cfg_dryRun := True\<rparr>)
   \<and> existsSync (st_fs (freshState twoTwins)) (cfg_destDir (plainConfig\<lparr>cfg_dryRun := True\<rparr>))
   \<and> st_fs (snd (startOrganizing plainEnv (plainConfig\<lparr>cfg_dryRun := True\<rparr>)
                   (freshState twoTwins)))
       = st_fs (freshState twoTwins)
   \<and> fst (place (plainConfig\<lparr>cfg_dryRun := True\<rparr>) ''/s/a/x.wav'' ''x.wav''
             ''/d/Miscellaneous'' [] (freshState twoTwins))
       = Record ''/s/a/x.wav'' ''/d/Miscellaneous/x.wav''
   \<and> (\<exists>fs1. mkdirSync (st_fs (freshState twoTwins)) ''/d/Miscellaneous'' = Inr fs1
         \<and> ''/d/Miscellaneous/x.wav'' = uniqueDestPath fs1 ''/d/Miscellaneous'' ''x.wav'')"
proof -
  let ?c = "plainConfig\<lparr>cfg_dryRun := True\<rparr>"
  have h1: "cfg_dryRun ?c" by simp
  have h2: "existsSync (st_fs (freshState twoTwins)) (cfg_destDir ?c)" by code_simp
  have j: "path_join [''/d/Miscellaneous'', ''x.wav''] = ''/d/Miscellaneous/x.wav''" by code_simp
  have r: "fst (place (?c\<lparr>cfg_dryRun := False\<rparr>) ''/s/a/x.wav'' ''x.wav'' ''/d/Miscellaneous'' []
                 (freshState twoTwins))
      = Record ''/s/a/x.wav'' ''/d/Miscellaneous/x.wav''" by code_simp
  note t = dry_run_changes_nothing [OF h1 h2, of plainEnv "''/s/a/x.wav''" "mkDedupe ?c"
      "freshState twoTwins" "''x.wav''" "''a''" False "''/d/Miscellaneous''" "[]"]
  from t have a: "st_fs (snd (startOrganizing plainEnv ?c (freshState twoTwins)))
       = st_fs (freshState twoTwins)" by blast
  from t have b: "fst (place ?c ''/s/a/x.wav'' ''x.wav'' ''/d/Miscellaneous'' [] (freshState twoTwins))
       = Record ''/s/a/x.wav'' ''/d/Miscellaneous/x.wav''" by (simp add: j)
  from t r have c: "\<exists>fs1. mkdirSync (st_fs (freshState twoTwins)) ''/d/Miscellaneous'' = Inr fs1
         \<and> ''/d/Miscellaneous/x.wav'' = uniqueDestPath fs1 ''/d/Miscellaneous'' ''x.wav''"
    by blast
  from h1 h2 a b c show ?thesis by blast
qed

subsection \<open>MIDI files\<close>












subsection \<open>Hashing failures\<close>

lemma categorizeFile_processed:
  assumes "\<not> isHiddenName (path_basename fullPath)" and "isAcceptedExt fullPath config"
  shows "categorizeFile env fullPath config dedupe st =
     (case dedupeStage env config dedupe fullPath (path_basename fullPath) st of
        (True, st1) \<Rightarrow> (Undefined, st1)
      | (False, st1) \<Rightarrow>
          classifyAndPlace env config fullPath (path_basename fullPath)
            (last (splitOn CHR ''/'' (path_dirname
               (path_relative (fs_cwd (st_fs st)) (cfg_samplesDir config) fullPath))))
            (getExt fullPath = ''mid'' \<or> getExt fullPath = ''midi'') st1)"
  using assms by (simp add: categorizeFile_def Let_def)

lemma dedupeStage_disabled:
  "dedupeStage env config (dedupe\<lparr>dd_enabled := False\<rparr>) fullPath fileName st = (False, st)"
  by (simp add: dedupeStage_def)

lemma dedupeStage_hash_failed:
  assumes "dd_enabled dedupe" and "readCancel st = (False, st0)"
      and "computeFileHash env (st_fs st0) fullPath (dd_algo dedupe) = Inl e"
  shows "dedupeStage env config dedupe fullPath fileName st
           = (False, send (HashingFailed fileName e) LError st0)"
  using assms by (simp add: dedupeStage_def)

lemma processFiles_step:
  assumes "readCancel st' = (False, st)" and "getExt fullPath \<noteq> ''zip''" and "getExt fullPath \<noteq> ''rar''"
  shows "processFiles env config dedupe (fullPath # rest) moved st'
     = processFiles env config dedupe rest
         (pushRecord (fst (categorizeFile env fullPath config dedupe st)) moved)
         (snd (categorizeFile env fullPath config dedupe st))"
  using assms by (simp add: Let_def case_prod_beta)

text \<open>
  C9: when hashing a file fails, the failure is logged as an error, the map is left as it
  was, and the file is classified and placed as it would be with deduplication off;
  the loop over the files goes on with the next file.
\<close>

theorem hashing_failure_falls_through:
  assumes "dd_enabled dedupe" and "readCancel st = (False, st0)"
      and "computeFileHash env (st_fs st0) fullPath (dd_algo dedupe) = Inl e"
      and "\<not> isHiddenName (path_basename fullPath)" and "isAcceptedExt fullPath config"
  shows "dedupeStage env config dedupe fullPath (path_basename fullPath) st
           = (False, send (HashingFailed (path_basename fullPath) e) LError st0)
     \<and> st_map (snd (categorizeFile env fullPath config dedupe st)) = st_map st
     \<and> (HashingFailed (path_basename fullPath) e, LError)
          \<in> set (st_log (snd (categorizeFile env fullPath config dedupe st)))
     \<and> fst (categorizeFile env fullPath config dedupe st)
          = fst (categorizeFile env fullPath config (dedupe\<lparr>dd_enabled := False\<rparr>) st)
     \<and> st_fs (snd (categorizeFile env fullPath config dedupe st))
          = st_fs (snd (categorizeFile env fullPath config (dedupe\<lparr>dd_enabled := False\<rparr>) st))
     \<and> (\<forall>rest moved st'.
          readCancel st' = (False, st) \<and> getExt fullPath \<noteq> ''zip'' \<and> getExt fullPath \<noteq> ''rar''
          \<longrightarrow> processFiles env config dedupe (fullPath # rest) moved st'
              = processFiles env config dedupe rest
                  (pushRecord (fst (categorizeFile env fullPath config dedupe st)) moved)
                  (snd (categorizeFile env fullPath config dedupe st)))"
proof -
  let ?fileName = "path_basename fullPath"
  let ?parent = "last (splitOn CHR ''/'' (path_dirname
               (path_relative (fs_cwd (st_fs st)) (cfg_samplesDir config) fullPath)))"
  let ?midi = "getExt fullPath = ''mid'' \<or> getExt fullPath = ''midi''"
  let ?st1 = "send (HashingFailed ?fileName e) LError st0"
  have ds: "dedupeStage env config dedupe fullPath ?fileName st = (False, ?st1)"
    using assms(1-3) by (rule dedupeStage_hash_failed)
  have c: "categorizeFile env fullPath config dedupe st
      = classifyAndPlace env config fullPath ?fileName ?parent ?midi ?st1"
    using categorizeFile_processed [OF assms(4,5), of env dedupe st] ds by simp
  have c0: "categorizeFile env fullPath config (dedupe\<lparr>dd_enabled := False\<rparr>) st
      = classifyAndPlace env config fullPath ?fileName ?parent ?midi st"
    using categorizeFile_processed [OF assms(4,5), of env "dedupe\<lparr>dd_enabled := False\<rparr>" st]
    by (simp add: dedupeStage_disabled)
  have m0: "st_map st0 = st_map st" and f0: "st_fs st0 = st_fs st" and l0: "st_log st0 = st_log st"
    using assms(2) readCancel_fields [of st] by simp_all
  have m: "st_map (snd (categorizeFile env fullPath config dedupe st)) = st_map st"
    unfolding c by (simp add: classifyAndPlace_fields m0)
  obtain l where "st_log (snd (classifyAndPlace env config fullPath ?fileName ?parent ?midi ?st1))
      = st_log ?st1 @ l"
    using classifyAndPlace_log by blast
  then have lg: "(HashingFailed ?fileName e, LError)
          \<in> set (st_log (snd (categorizeFile env fullPath config dedupe st)))"
    unfolding c by simp
  have fs1: "st_fs ?st1 = st_fs st" using f0 by simp
  have r: "fst (categorizeFile env fullPath config dedupe st)
          = fst (categorizeFile env fullPath config (dedupe\<lparr>dd_enabled := False\<rparr>) st)"
    unfolding c c0 using fs1 by (rule classifyAndPlace_depends_on_fs)
  have f: "st_fs (snd (categorizeFile env fullPath config dedupe st))
          = st_fs (snd (categorizeFile env fullPath config (dedupe\<lparr>dd_enabled := False\<rparr>) st))"
    unfolding c c0 using fs1 by (rule classifyAndPlace_depends_on_fs)
  have p: "\<forall>rest moved st'.
          readCancel st' = (False, st) \<and> getExt fullPath \<noteq> ''zip'' \<and> getExt fullPath \<noteq> ''rar''
          \<longrightarrow> processFiles env config dedupe (fullPath # rest) moved st'
              = processFiles env config dedupe rest
                  (pushRecord (fst (categorizeFile env fullPath config dedupe st)) moved)
                  (snd (categorizeFile env fullPath config dedupe st))"
    using processFiles_step by blast
  from ds m lg r f p show ?thesis by blast
qed

text \<open>
  The theorem at work: \<open>/s/a/x.wav\<close> cannot be read; the failure is logged, nothing is
  indexed and the file is moved to \<open>/d/Miscellaneous\<close> all the same.
\<close>

theorem hashing_failure_falls_through_witness:
  "computeFileHash plainEnv
       (st_fs (freshState (Dir [(''s'', Dir [(''a'', Dir [(''x.wav'', File ''abc'' False)])]),
                                (''d'', Dir [])])))
       ''/s/a/x.wav'' (dd_algo (mkDedupe (plainConfig\<lparr>cfg_dedupeEnabled := True\<rparr>)))
     = Inl EACCES
   \<and> st_map (snd (categorizeFile plainEnv ''/s/a/x.wav'' (plainConfig\<lparr>cfg_dedupeEnabled := True\<rparr>)
        (mkDedupe (plainConfig\<lparr>cfg_dedupeEnabled := True\<rparr>))
        (freshState (Dir [(''s'', Dir [(''a'', Dir [(''x.wav'', File ''abc'' False)])]),
                          (''d'', Dir [])])))) = []
   \<and> (HashingFailed ''x.wav'' EACCES, LError)
        \<in> set (st_log (snd (categorizeFile plainEnv ''/s/a/x.wav''
             (plainConfig\<lparr>cfg_dedupeEnabled := True\<rparr>)
             (mkDedupe (plainConfig\<lparr>cfg_dedupeEnabled := True\<rparr>))
             (freshState (Dir [(''s'', Dir [(''a'', Dir [(''x.wav'', File ''abc'' False)])]),
                               (''d'', Dir [])])))))
   \<and> fst (categorizeFile plainEnv ''/s/a/x.wav'' (plainConfig\<lparr>cfg_dedupeEnabled := True\<rparr>)
        (mkDedupe (plainConfig\<lparr>cfg_dedupeEnabled := True\<rparr>))
        (freshState (Dir [(''s'', Dir [(''a'', Dir [(''x.wav'', File ''abc'' False)])]),
                          (''d'', Dir [])])))
     = Record ''/s/a/x.wav'' ''/d/Miscellaneous/x.wav''"
proof -
  let ?c = "plainConfig\<lparr>cfg_dedupeEnabled := True\<rparr>"
  let ?st = "freshState (Dir [(''s'', Dir [(''a'', Dir [(''x.wav'', File ''abc'' False)])]),
                          (''d'', Dir [])])"
  have h1: "dd_enabled (mkDedupe ?c)" by code_simp
  have h2: "readCancel ?st = (False, ?st)" by (simp add: readCancel_def freshState_def)
  have h3: "computeFileHash plainEnv (st_fs ?st) ''/s/a/x.wav'' (dd_algo (mkDedupe ?c)) = Inl EACCES"
    by code_simp
  have h4: "\<not> isHiddenName (path_basename ''/s/a/x.wav'')" by code_simp
  have h5: "isAcceptedExt ''/s/a/x.wav'' ?c" by code_simp
  have b: "path_basename ''/s/a/x.wav'' = ''x.wav''" by code_simp
  have r: "fst (categorizeFile plainEnv ''/s/a/x.wav'' ?c (mkDedupe (plainConfig\<lparr>cfg_dedupeEnabled := True\<rparr>)) ?st)
     = Record ''/s/a/x.wav'' ''/d/Miscellaneous/x.wav''"
    by code_simp
  note t = hashing_failure_falls_through [OF h1 h2 h3 h4 h5]
  from t have m: "st_map (snd (categorizeFile plainEnv ''/s/a/x.wav'' ?c (mkDedupe ?c) ?st)) = []"
    by (simp add: freshState_def)
  from t b have l: "(HashingFailed ''x.wav'' EACCES, LError)
        \<in> set (st_log (snd (categorizeFile plainEnv ''/s/a/x.wav'' ?c (mkDedupe ?c) ?st)))"
    by simp
  from h3 m l r show ?thesis by blast
qed

subsection \<open>The index\<close>

lemma handleDuplicate_map:
  "st_map (snd (handleDuplicate config dedupe fullPath fileName firstSeen st)) = st_map st"
  by (simp add: handleDuplicate_def split: prod.splits sum.splits)

lemma dedupeStage_keeps_entries:
  assumes "map_of (st_map st) h = Some p" and "p \<noteq> []"
  shows "map_of (st_map (snd (dedupeStage env config dedupe fullPath fileName st))) h = Some p"
proof -
  obtain c st0 where rc: "readCancel st = (c, st0)" by (cases "readCancel st")
  then have m0: "st_map st0 = st_map st" using readCancel_fields(2) [of st] by simp
  show ?thesis
  proof (cases "dd_enabled dedupe \<and> \<not> c")
    case False
    then show ?thesis using rc m0 assms by (auto simp: dedupeStage_def)
  next
    case True
    show ?thesis
    proof (cases "computeFileHash env (st_fs st0) fullPath (dd_algo dedupe)")
      case (Inl e)
      then show ?thesis using True rc m0 assms by (simp add: dedupeStage_def)
    next
      case (Inr hash)
      show ?thesis
      proof (cases "hash = h")
        case True
        then show ?thesis using \<open>dd_enabled dedupe \<and> \<not> c\<close> rc m0 assms Inr
          by (simp add: dedupeStage_def handleDuplicate_map)
      next
        case False
        then show ?thesis using \<open>dd_enabled dedupe \<and> \<not> c\<close> rc m0 assms Inr
          by (auto simp: dedupeStage_def handleDuplicate_map map_of_setEntry split: option.splits)
      qed
    qed
  qed
qed

lemma categorizeFile_keeps_entries:
  assumes "map_of (st_map st) h = Some p" and "p \<noteq> []"
  shows "map_of (st_map (snd (categorizeFile env fullPath config dedupe st))) h = Some p"
proof -
  obtain b st1 where ds: "dedupeStage env config dedupe fullPath (path_basename fullPath) st = (b, st1)"
    by (cases "dedupeStage env config dedupe fullPath (path_basename fullPath) st")
  then have "map_of (st_map st1) h = Some p"
    using dedupeStage_keeps_entries [OF assms, of env config dedupe fullPath "path_basename fullPath"]
    by simp
  then show ?thesis using ds assms(1)
    by (cases b) (simp_all add: categorizeFile_def Let_def classifyAndPlace_fields)
qed

lemma processExtracted_keeps_entries:
  assumes "map_of (st_map st) h = Some p" and "p \<noteq> []"
  shows "map_of (st_map (snd (processExtracted env config dedupe files moved st))) h = Some p"
  using assms(1)
proof (induction files arbitrary: moved st)
  case Nil
  then show ?case by simp
next
  case (Cons f rest)
  show ?case
  proof (cases "isAcceptedExt f config")
    case False
    then show ?thesis using Cons by simp
  next
    case True
    have "map_of (st_map (snd (categorizeFile env f config dedupe st))) h = Some p"
      using Cons.prems assms(2) by (rule categorizeFile_keeps_entries)
    then show ?thesis using True Cons.IH by (simp add: case_prod_beta)
  qed
qed

lemma scanFallback_map:
  "st_map (snd (scanFallback extractedFiles tempDir st)) = st_map st"
  by (simp add: scanFallback_def split: sum.splits)

lemma removeScratch_map: "st_map (removeScratch fileName tempDir st) = st_map st"
  by (simp add: removeScratch_def split: sum.splits)

lemma processArchive_keeps_entries:
  assumes "map_of (st_map st) h = Some p" and "p \<noteq> []"
  shows "map_of (st_map (snd (processArchive env config dedupe fullPath fileName ext moved st))) h
           = Some p"
proof (cases "cfg_dryRun config")
  case True
  then show ?thesis using assms(1) by (simp add: processArchive_def)
next
  case False
  obtain fs1 res where x: "extractArchive env (st_fs st) fullPath (tempDirOf config fileName) ext
      (cfg_keepArchives config) = (fs1, res)"
    by (cases "extractArchive env (st_fs st) fullPath (tempDirOf config fileName) ext
      (cfg_keepArchives config)")
  show ?thesis
  proof (cases res)
    case (Inl e)
    then show ?thesis using False x assms(1) by (simp add: processArchive_def)
  next
    case (Inr extractedFiles)
    let ?sc = "scanFallback extractedFiles (tempDirOf config fileName)
        (send (Extracted fileName (length extractedFiles)) LWarning (st\<lparr>st_fs := fs1\<rparr>))"
    have "st_map (snd ?sc) = st_map st" by (simp add: scanFallback_map)
    then have "map_of (st_map (snd ?sc)) h = Some p" using assms(1) by simp
    then have "map_of (st_map (snd (processExtracted env config dedupe (fst ?sc) moved (snd ?sc)))) h
        = Some p"
      using assms(2) by (rule processExtracted_keeps_entries)
    then show ?thesis using False x Inr
      by (simp add: processArchive_def case_prod_beta removeScratch_map)
  qed
qed

lemma processFiles_keeps_entries:
  assumes "map_of (st_map st) h = Some p" and "p \<noteq> []"
  shows "map_of (st_map (snd (processFiles env config dedupe files moved st))) h = Some p"
  using assms(1)
proof (induction files arbitrary: moved st)
  case Nil
  then show ?case by simp
next
  case (Cons fullPath rest)
  obtain c st0 where rc: "readCancel st = (c, st0)" by (cases "readCancel st")
  then have m0: "map_of (st_map st0) h = Some p"
    using readCancel_fields(2) [of st] Cons.prems by simp
  show ?case
  proof (cases c)
    case True
    then show ?thesis using rc m0 by simp
  next
    case False
    have a: "map_of (st_map (snd (processArchive env config dedupe fullPath (path_basename fullPath)
        (getExt fullPath) moved st0))) h = Some p"
      using m0 assms(2) by (rule processArchive_keeps_entries)
    have b: "map_of (st_map (snd (categorizeFile env fullPath config dedupe st0))) h = Some p"
      using m0 assms(2) by (rule categorizeFile_keeps_entries)
    show ?thesis using rc False a b Cons.IH by (simp add: Let_def case_prod_beta)
  qed
qed

lemma dedupeStage_first_seen:
  assumes "dd_enabled dedupe" and "readCancel st = (False, st0)"
      and "computeFileHash env (st_fs st0) fullPath (dd_algo dedupe) = Inr h"
      and "map_of (st_map st0) h = None"
  shows "dedupeStage env config dedupe fullPath fileName st
           = (False, st0\<lparr>st_map := setEntry h fullPath (st_map st0)\<rparr>)"
  using assms by (simp add: dedupeStage_def)

lemma dedupeStage_duplicate:
  assumes "dd_enabled dedupe" and "readCancel st = (False, st0)"
      and "computeFileHash env (st_fs st0) fullPath (dd_algo dedupe) = Inr h"
      and "map_of (st_map st0) h = Some firstSeen" and "firstSeen \<noteq> []"
  shows "dedupeStage env config dedupe fullPath fileName st
           = handleDuplicate config dedupe fullPath fileName firstSeen st0"
  using assms by (simp add: dedupeStage_def)

text \<open>
  C10: a file that is not a duplicate and whose hash \<open>h\<close> is computed is entered in the map
  under \<open>h\<close> before it is classified and placed, and the entry is there afterwards
  whatever came of the placement, a failed move included; it stays through all later
  files of the run, and a later file with the hash \<open>h\<close> is handled as a duplicate of it.
\<close>

theorem index_entry_survives_failed_move:
  assumes "dd_enabled dedupe" and "readCancel st = (False, st0)"
      and "computeFileHash env (st_fs st0) fullPath (dd_algo dedupe) = Inr h"
      and "map_of (st_map st0) h = None"
      and "\<not> isHiddenName (path_basename fullPath)" and "isAcceptedExt fullPath config"
      and "fullPath \<noteq> []"
  shows "categorizeFile env fullPath config dedupe st
           = classifyAndPlace env config fullPath (path_basename fullPath)
               (last (splitOn CHR ''/'' (path_dirname
                  (path_relative (fs_cwd (st_fs st)) (cfg_samplesDir config) fullPath))))
               (getExt fullPath = ''mid'' \<or> getExt fullPath = ''midi'')
               (st0\<lparr>st_map := setEntry h fullPath (st_map st0)\<rparr>)
     \<and> st_map (snd (categorizeFile env fullPath config dedupe st))
           = setEntry h fullPath (st_map st0)
     \<and> map_of (st_map (snd (categorizeFile env fullPath config dedupe st))) h = Some fullPath
     \<and> (\<forall>files moved st2.
          map_of (st_map st2) h = Some fullPath
          \<longrightarrow> map_of (st_map (snd (processFiles env config dedupe files moved st2))) h
                = Some fullPath)
     \<and> (\<forall>f st2 st2'.
          map_of (st_map st2) h = Some fullPath \<and> readCancel st2 = (False, st2')
          \<and> computeFileHash env (st_fs st2') f (dd_algo dedupe) = Inr h
          \<longrightarrow> dedupeStage env config dedupe f (path_basename f) st2
                = handleDuplicate config dedupe f (path_basename f) fullPath st2')"
proof -
  let ?st1 = "st0\<lparr>st_map := setEntry h fullPath (st_map st0)\<rparr>"
  have ds: "dedupeStage env config dedupe fullPath (path_basename fullPath) st = (False, ?st1)"
    using assms(1-4) by (rule dedupeStage_first_seen)
  have a: "categorizeFile env fullPath config dedupe st
           = classifyAndPlace env config fullPath (path_basename fullPath)
               (last (splitOn CHR ''/'' (path_dirname
                  (path_relative (fs_cwd (st_fs st)) (cfg_samplesDir config) fullPath))))
               (getExt fullPath = ''mid'' \<or> getExt fullPath = ''midi'') ?st1"
    using categorizeFile_processed [OF assms(5,6), of env dedupe st] ds by simp
  have b: "st_map (snd (categorizeFile env fullPath config dedupe st))
           = setEntry h fullPath (st_map st0)"
    unfolding a by (simp add: classifyAndPlace_fields)
  have c: "map_of (st_map (snd (categorizeFile env fullPath config dedupe st))) h = Some fullPath"
    unfolding b by (simp add: map_of_setEntry)
  have d: "\<forall>files moved st2.
          map_of (st_map st2) h = Some fullPath
          \<longrightarrow> map_of (st_map (snd (processFiles env config dedupe files moved st2))) h
                = Some fullPath"
    using processFiles_keeps_entries assms(7) by blast
  have e: "\<forall>f st2 st2'.
          map_of (st_map st2) h = Some fullPath \<and> readCancel st2 = (False, st2')
          \<and> computeFileHash env (st_fs st2') f (dd_algo dedupe) = Inr h
          \<longrightarrow> dedupeStage env config dedupe f (path_basename f) st2
                = handleDuplicate config dedupe f (path_basename f) fullPath st2'"
  proof (intro allI impI)
    fix f st2 st2'
    assume h: "map_of (st_map st2) h = Some fullPath \<and> readCancel st2 = (False, st2')
          \<and> computeFileHash env (st_fs st2') f (dd_algo dedupe) = Inr h"
    then have rc: "readCancel st2 = (False, st2')"
      and ch: "computeFileHash env (st_fs st2') f (dd_algo dedupe) = Inr h" by simp_all
    have "st_map st2' = st_map st2" using rc readCancel_fields(2) [of st2] by simp
    then have m: "map_of (st_map st2') h = Some fullPath" using h by simp
    show "dedupeStage env config dedupe f (path_basename f) st2
                = handleDuplicate config dedupe f (path_basename f) fullPath st2'"
      using assms(1) rc ch m assms(7) by (rule dedupeStage_duplicate)
  qed
  from a b c d e show ?thesis by blast
qed

text \<open>
  The theorem at work: \<open>/d/Miscellaneous\<close> is a file, so \<open>/s/a/x.wav\<close> cannot be placed and
  \<^verbatim>\<open>categorizeFile\<close> returns \<^verbatim>\<open>null\<close>; its hash is in the map all the same, and
  \<open>/s/b/y.wav\<close>, of the same content, is then skipped as its duplicate.
\<close>

theorem index_entry_survives_failed_move_witness:
  "fst (categorizeFile plainEnv ''/s/a/x.wav'' (plainConfig\<lparr>cfg_dedupeEnabled := True\<rparr>)
        (mkDedupe (plainConfig\<lparr>cfg_dedupeEnabled := True\<rparr>))
        (freshState (Dir [(''s'', Dir [(''a'', Dir [(''x.wav'', File ''abc'' True)]),
                                       (''b'', Dir [(''y.wav'', File ''abc'' True)])]),
                          (''d'', Dir [(''Miscellaneous'', File ''note'' True)])]))) = Null
   \<and> st_map (snd (categorizeFile plainEnv ''/s/a/x.wav'' (plainConfig\<lparr>cfg_dedupeEnabled := True\<rparr>)
        (mkDedupe (plainConfig\<lparr>cfg_dedupeEnabled := True\<rparr>))
        (freshState (Dir [(''s'', Dir [(''a'', Dir [(''x.wav'', File ''abc'' True)]),
                                       (''b'', Dir [(''y.wav'', File ''abc'' True)])]),
                          (''d'', Dir [(''Miscellaneous'', File ''note'' True)])]))))
       = [(''abc'', ''/s/a/x.wav'')]
   \<and> categorizeFile plainEnv ''/s/b/y.wav'' (plainConfig\<lparr>cfg_dedupeEnabled := True\<rparr>)
        (mkDedupe (plainConfig\<lparr>cfg_dedupeEnabled := True\<rparr>))
        (snd (categorizeFile plainEnv ''/s/a/x.wav'' (plainConfig\<lparr>cfg_dedupeEnabled := True\<rparr>)
          (mkDedupe (plainConfig\<lparr>cfg_dedupeEnabled := True\<rparr>))
          (freshState (Dir [(''s'', Dir [(''a'', Dir [(''x.wav'', File ''abc'' True)]),
                                         (''b'', Dir [(''y.wav'', File ''abc'' True)])]),
                            (''d'', Dir [(''Miscellaneous'', File ''note'' True)])]))))
       = (Undefined,
          \<lparr>st_fs = \<lparr>fs_root = Dir [(''s'', Dir [(''a'', Dir [(''x.wav'', File ''abc'' True)]),
                                                 (''b'', Dir [(''y.wav'', File ''abc'' True)])]),
                                    (''d'', Dir [(''Miscellaneous'', File ''note'' True)])],
                    fs_cwd = ''/''\<rparr>,
           st_map = [(''abc'', ''/s/a/x.wav'')],
           st_log = [(ProcessingError ''x.wav'' EEXIST, LError),
                     (DuplicateSkipped ''y.wav'' ''x.wav'', LWarning)],
           st_cancel = None\<rparr>)"
proof -
  let ?c = "plainConfig\<lparr>cfg_dedupeEnabled := True\<rparr>"
  let ?st = "freshState (Dir [(''s'', Dir [(''a'', Dir [(''x.wav'', File ''abc'' True)]),
                                       (''b'', Dir [(''y.wav'', File ''abc'' True)])]),
                          (''d'', Dir [(''Miscellaneous'', File ''note'' True)])])"
  have h1: "dd_enabled (mkDedupe ?c)" by code_simp
  have h2: "readCancel ?st = (False, ?st)" by (simp add: readCancel_def freshState_def)
  have h3: "computeFileHash plainEnv (st_fs ?st) ''/s/a/x.wav'' (dd_algo (mkDedupe ?c)) = Inr ''abc''"
    by code_simp
  have h4: "map_of (st_map ?st) ''abc'' = None" by (simp add: freshState_def)
  have h5: "\<not> isHiddenName (path_basename ''/s/a/x.wav'')" by code_simp
  have h6: "isAcceptedExt ''/s/a/x.wav'' ?c" by code_simp
  have h7: "''/s/a/x.wav'' \<noteq> []" by simp
  have r: "fst (categorizeFile plainEnv ''/s/a/x.wav'' ?c (mkDedupe ?c) ?st) = Null" by code_simp
  note t = index_entry_survives_failed_move [OF h1 h2 h3 h4 h5 h6 h7]
  from t have "st_map (snd (categorizeFile plainEnv ''/s/a/x.wav'' ?c (mkDedupe ?c) ?st))
       = setEntry ''abc'' ''/s/a/x.wav'' (st_map ?st)"
    by (rule conjunct1 [OF conjunct2])
  also have "\<dots> = [(''abc'', ''/s/a/x.wav'')]" by (simp add: freshState_def)
  finally have m: "st_map (snd (categorizeFile plainEnv ''/s/a/x.wav'' ?c (mkDedupe ?c) ?st))
       = [(''abc'', ''/s/a/x.wav'')]" .
  have s: "categorizeFile plainEnv ''/s/b/y.wav'' ?c (mkDedupe ?c)
        (snd (categorizeFile plainEnv ''/s/a/x.wav'' ?c (mkDedupe ?c) ?st))
       = (Undefined,
          \<lparr>st_fs = \<lparr>fs_root = Dir [(''s'', Dir [(''a'', Dir [(''x.wav'', File ''abc'' True)]),
                                                 (''b'', Dir [(''y.wav'', File ''abc'' True)])]),
                                    (''d'', Dir [(''Miscellaneous'', File ''note'' True)])],
                    fs_cwd = ''/''\<rparr>,
           st_map = [(''abc'', ''/s/a/x.wav'')],
           st_log = [(ProcessingError ''x.wav'' EEXIST, LError),
                     (DuplicateSkipped ''y.wav'' ''x.wav'', LWarning)],
           st_cancel = None\<rparr>)"
    by code_simp
  from r m s show ?thesis by blast
qed

subsection \<open>Duplicates\<close>

text \<open>
  A file whose hash is in the map: in a dry run it is reported and nothing else happens;
  with the policy \<open>skip\<close> it is reported and left where it is; with the policy
  \<open>quarantine\<close>, when the move or copy into \<open>_Duplicates\<close> succeeds, it is put there under
  a free name. In these cases \<^verbatim>\<open>categorizeFile\<close> returns nothing and the file is not
  classified.
\<close>

lemma duplicate_handled_per_policy:
  assumes "dd_enabled dedupe" and "readCancel st = (False, st0)"
      and "computeFileHash env (st_fs st0) fullPath (dd_algo dedupe) = Inr h"
      and "map_of (st_map st0) h = Some firstSeen" and "firstSeen \<noteq> []"
      and "\<not> isHiddenName (path_basename fullPath)" and "isAcceptedExt fullPath config"
  shows "cfg_dryRun config \<Longrightarrow>
           categorizeFile env fullPath config dedupe st
             = (Undefined, send (DryRunDuplicate (path_basename fullPath) (path_basename firstSeen))
                             LWarning st0)"
    and "\<not> cfg_dryRun config \<Longrightarrow> dd_mode dedupe = ''skip'' \<Longrightarrow>
           categorizeFile env fullPath config dedupe st
             = (Undefined, send (DuplicateSkipped (path_basename fullPath) (path_basename firstSeen))
                             LWarning st0)"
    and "\<not> cfg_dryRun config \<Longrightarrow> dd_mode dedupe = ''quarantine'' \<Longrightarrow>
         quarantine (st_fs st0) (dd_quarantineDir dedupe) fullPath (path_basename fullPath)
           (cfg_moveFiles config) = (fs', Inr dest) \<Longrightarrow>
           categorizeFile env fullPath config dedupe st
             = (Undefined, send (DuplicateQuarantined (path_basename fullPath)
                                   (path_basename firstSeen)) LWarning (st0\<lparr>st_fs := fs'\<rparr>))"
proof -
  note ds = dedupeStage_duplicate [OF assms(1-5), of config "path_basename fullPath"]
  note cf = categorizeFile_processed [OF assms(6,7), of env dedupe st]
  show "cfg_dryRun config \<Longrightarrow>
           categorizeFile env fullPath config dedupe st
             = (Undefined, send (DryRunDuplicate (path_basename fullPath) (path_basename firstSeen))
                             LWarning st0)"
    unfolding cf ds by (simp add: handleDuplicate_def)
  show "\<not> cfg_dryRun config \<Longrightarrow> dd_mode dedupe = ''skip'' \<Longrightarrow>
           categorizeFile env fullPath config dedupe st
             = (Undefined, send (DuplicateSkipped (path_basename fullPath) (path_basename firstSeen))
                             LWarning st0)"
    unfolding cf ds by (simp add: handleDuplicate_def)
  show "\<not> cfg_dryRun config \<Longrightarrow> dd_mode dedupe = ''quarantine'' \<Longrightarrow>
         quarantine (st_fs st0) (dd_quarantineDir dedupe) fullPath (path_basename fullPath)
           (cfg_moveFiles config) = (fs', Inr dest) \<Longrightarrow>
           categorizeFile env fullPath config dedupe st
             = (Undefined, send (DuplicateQuarantined (path_basename fullPath)
                                   (path_basename firstSeen)) LWarning (st0\<lparr>st_fs := fs'\<rparr>))"
    unfolding cf ds by (simp add: handleDuplicate_def)
qed

text \<open>
  C4 fails on the code when the move into \<open>_Duplicates\<close> throws: the \<^verbatim>\<open>catch\<close> meant for
  hashing failures takes the error, logs it as a hashing failure, and the duplicate goes
  on to classification. Here \<open>/d/_Duplicates\<close> is a file; \<open>/s/a/x.wav\<close> and \<open>/s/b/x.wav\<close>
  have the same content, and both end up classified and moved into \<open>/d/Miscellaneous\<close>.
\<close>

theorem duplicate_classified_when_quarantine_fails:
  "startOrganizing plainEnv
     (plainConfig\<lparr>cfg_dedupeEnabled := True, cfg_dedupeMode := ''quarantine''\<rparr>)
     (freshState (Dir [(''s'', Dir [(''a'', Dir [(''x.wav'', File ''abc'' True)]),
                                    (''b'', Dir [(''x.wav'', File ''abc'' True)])]),
                       (''d'', Dir [(''_Duplicates'', File ''note'' True)])]))
   = (Inr (Some \<lparr>done_destDir = ''/d'', done_dryRun = False,
                 done_newFiles = [(''/s/a/x.wav'', ''/d/Miscellaneous/x.wav''),
                                  (''/s/b/x.wav'', ''/d/Miscellaneous/x (2).wav'')]\<rparr>),
      \<lparr>st_fs = \<lparr>fs_root = Dir [(''s'', Dir [(''a'', Dir []), (''b'', Dir [])]),
                                (''d'', Dir [(''_Duplicates'', File ''note'' True),
                                             (''Miscellaneous'',
                                                Dir [(''x.wav'', File ''abc'' True),
                                                     (''x (2).wav'', File ''abc'' True)])])],
                fs_cwd = ''/''\<rparr>,
       st_map = [(''abc'', ''/s/a/x.wav'')],
       st_log = [(IndexingDestination, LInfo), (IndexedDestination 0, LWarning),
                 (StartingProcessing, LWarning), (FoundFiles 2, LInfo),
                 (Placed False True ''x.wav'' ''/d/Miscellaneous/x.wav'' [], LSuccess),
                 (HashingFailed ''x.wav'' ENOTDIR, LError),
                 (Placed False True ''x.wav'' ''/d/Miscellaneous/x (2).wav'' [], LSuccess)],
       st_cancel = None\<rparr>)"
  by code_simp

subsection \<open>Resolved paths\<close>

lemma resolveLoop_absolute:
  "startsWith cwd ''/'' \<Longrightarrow> snd (resolveLoop (ps @ [cwd]) acc)"
  by (induction ps arbitrary: acc) (auto simp: startsWith_iff isSlash_def)

lemma normSegs_plain:
  "list_all plainSeg res \<Longrightarrow> \<forall>x\<in>set xs. CHR ''/'' \<notin> set x \<Longrightarrow>
   list_all plainSeg (normSegs False res xs)"
proof (induction xs arbitrary: res)
  case Nil
  then show ?case by (simp add: list_all_iff)
next
  case (Cons s ss)
  have ss: "\<forall>x\<in>set ss. CHR ''/'' \<notin> set x" using Cons.prems(2) by simp
  have s: "CHR ''/'' \<notin> set s" using Cons.prems(2) by simp
  show ?case
  proof (cases "s = [] \<or> s = ''.''")
    case True
    then show ?thesis using Cons.IH [OF Cons.prems(1) ss] by auto
  next
    case False
    show ?thesis
    proof (cases "s = ''..''")
      case True
      show ?thesis
      proof (cases res)
        case Nil
        then show ?thesis using True Cons.IH [of "[]", OF _ ss] by simp
      next
        case rr: (Cons r rs)
        have "plainSeg r" and rs: "list_all plainSeg rs" using Cons.prems(1) rr by simp_all
        then have "r \<noteq> ''..''" by (simp add: plainSeg_def)
        then show ?thesis using True rr Cons.IH [OF rs ss] by simp
      qed
    next
      case dd: False
      have "plainSeg s" using False dd s by (simp add: plainSeg_def)
      then have "list_all plainSeg (s # res)" using Cons.prems(1) by simp
      then show ?thesis using False dd Cons.IH [of "s # res", OF _ ss] by simp
    qed
  qed
qed

lemma resolveSegs_plain:
  assumes "startsWith cwd ''/''"
  shows "snd (resolveSegs cwd args)" and "list_all plainSeg (fst (resolveSegs cwd args))"
proof -
  obtain rp ab where rl: "resolveLoop (rev args @ [cwd]) [] = (rp, ab)"
    by (cases "resolveLoop (rev args @ [cwd]) []")
  have ab: "ab" using resolveLoop_absolute [OF assms, of "rev args" "[]"] rl by simp
  show "snd (resolveSegs cwd args)" using rl ab by (simp add: resolveSegs_def)
  have "list_all plainSeg (normSegs False [] (splitOn CHR ''/'' rp))"
    by (rule normSegs_plain) (auto dest: splitOn_no_sep)
  then show "list_all plainSeg (fst (resolveSegs cwd args))"
    using rl ab by (simp add: resolveSegs_def)
qed

lemma normSegs_plain_id:
  "list_all plainSeg T \<Longrightarrow> normSegs a res (T @ rest) = normSegs a (rev T @ res) rest"
  by (induction T arbitrary: res) (auto simp: plainSeg_def)

lemma splitOn_joinWith:
  "T \<noteq> [] \<Longrightarrow> \<forall>t\<in>set T. CHR ''/'' \<notin> set t \<Longrightarrow>
   splitOn CHR ''/'' (joinWith ''/'' T) = T"
proof (induction "''/''" T rule: joinWith.induct)
  case 1
  then show ?case by simp
next
  case (2 x)
  then show ?case by (simp add: splitOn_none)
next
  case (3 x y ys)
  have "splitOn CHR ''/'' (x @ CHR ''/'' # joinWith ''/'' (y # ys))
        = splitOn CHR ''/'' x @ splitOn CHR ''/'' (joinWith ''/'' (y # ys))"
    by (rule splitOn_append)
  then show ?case using 3 by (simp add: splitOn_none)
qed

lemma joinWith_plain_nonempty:
  "T \<noteq> [] \<Longrightarrow> list_all plainSeg T \<Longrightarrow> joinWith d T \<noteq> []"
  by (induction d T rule: joinWith.induct) (auto simp: plainSeg_def)

lemma fsPath_resolved:
  assumes "list_all plainSeg T"
  shows "fsPath fs (CHR ''/'' # joinWith ''/'' T) = T"
proof -
  let ?J = "joinWith ''/'' T"
  have rs: "resolveSegs (fs_cwd fs) [CHR ''/'' # ?J]
            = (normSegs False [] (splitOn CHR ''/'' (CHR ''/'' # ?J @ ''/'')), True)"
    by (simp add: resolveSegs_def isSlash_def)
  have "splitOn CHR ''/'' (?J @ ''/'') = splitOn CHR ''/'' ?J @ splitOn CHR ''/'' []"
    by (rule splitOn_append)
  then have sp: "splitOn CHR ''/'' (CHR ''/'' # ?J @ ''/'') = [] # splitOn CHR ''/'' ?J @ [[]]"
    by simp
  have nf: "\<forall>t\<in>set T. CHR ''/'' \<notin> set t" using assms by (auto simp: list_all_iff plainSeg_def)
  have "normSegs False [] ([] # splitOn CHR ''/'' ?J @ [[]]) = T"
  proof (cases "T = []")
    case True
    then show ?thesis by simp
  next
    case False
    then have "splitOn CHR ''/'' ?J = T" using nf by (rule splitOn_joinWith)
    then show ?thesis using normSegs_plain_id [OF assms, of False "[]" "[[]]"] by simp
  qed
  then show ?thesis unfolding fsPath_def rs sp by simp
qed

lemma sep_split:
  "c \<notin> set d \<Longrightarrow> c \<notin> set t \<Longrightarrow> S = [] \<or> hd S = c \<Longrightarrow> prefix (d @ c # R) (t @ S) \<Longrightarrow>
   d = t \<and> prefix (c # R) S"
proof (induction d arbitrary: t)
  case Nil
  then show ?case by (cases t) auto
next
  case (Cons a d)
  show ?case
  proof (cases t)
    case Nil
    then show ?thesis using Cons.prems by (cases S) auto
  next
    case (Cons b t')
    then show ?thesis using Cons.prems Cons.IH [of t'] by auto
  qed
qed

lemma joinWith_Cons:
  "joinWith d (x # xs) = x @ (if xs = [] then [] else d @ joinWith d xs)"
  by (cases xs) auto

lemma prefix_segments:
  "list_all plainSeg D \<Longrightarrow> list_all plainSeg T \<Longrightarrow>
   prefix (joinWith ''/'' D @ ''/'') (joinWith ''/'' T) \<Longrightarrow> strict_prefix D T"
proof (induction D arbitrary: T)
  case Nil
  then show ?case by (cases T) (auto simp: joinWith_Cons plainSeg_def prefix_Cons)
next
  case (Cons d ds)
  from Cons.prems(3) obtain t ts where T: "T = t # ts" by (cases T) auto
  have d: "CHR ''/'' \<notin> set d" and t: "CHR ''/'' \<notin> set t"
    using Cons.prems(1,2) T by (auto simp: plainSeg_def)
  let ?R = "if ds = [] then [] else joinWith ''/'' ds @ ''/''"
  let ?S = "if ts = [] then [] else ''/'' @ joinWith ''/'' ts"
  have l: "joinWith ''/'' (d # ds) @ ''/'' = d @ CHR ''/'' # ?R" by (simp add: joinWith_Cons)
  have r: "joinWith ''/'' T = t @ ?S" by (simp add: T joinWith_Cons)
  have "?S = [] \<or> hd ?S = CHR ''/''" by simp
  with Cons.prems(3) have dt: "d = t \<and> prefix (CHR ''/'' # ?R) ?S"
    unfolding l r using sep_split [OF d t] by blast
  then have ts: "ts \<noteq> []" by (auto split: if_splits)
  then have p: "prefix ?R (joinWith ''/'' ts)" using dt by simp
  show ?case
  proof (cases "ds = []")
    case True
    then show ?thesis using dt ts T by (simp add: strict_prefix_def)
  next
    case False
    then have "prefix (joinWith ''/'' ds @ ''/'') (joinWith ''/'' ts)" using p by simp
    then have "strict_prefix ds ts" using Cons.IH [of ts] Cons.prems(1,2) T by simp
    then show ?thesis using dt T by (simp add: strict_prefix_def)
  qed
qed

lemma fsPath_dirname_resolved:
  assumes "list_all plainSeg T" and "T \<noteq> []"
  shows "fsPath fs (path_dirname (CHR ''/'' # joinWith ''/'' T)) = butlast T"
proof -
  obtain W nm where T: "T = W @ [nm]" using assms(2) by (metis rev_exhaust)
  have W: "list_all plainSeg W" and nm: "plainSeg nm" using assms(1) T by simp_all
  have nm1: "nm \<noteq> []" and nm2: "\<forall>c\<in>set nm. \<not> isSlash c"
    using nm by (auto simp: plainSeg_def isSlash_def)
  have hdrev: "\<not> isSlash (hd (rev nm))" using nm1 nm2 by (simp add: hd_rev)
  show ?thesis
  proof (cases "W = []")
    case True
    have "dropWhile isSlash (rev nm) = rev nm" using nm1 hdrev by (cases "rev nm") auto
    moreover have "dropWhile (\<lambda>c. \<not> isSlash c) (rev nm) = []" using nm2 by simp
    ultimately have "path_dirname (CHR ''/'' # nm) = ''/''"
      by (simp add: path_dirname_def Let_def isSlash_def)
    moreover have "fsPath fs (CHR ''/'' # joinWith ''/'' []) = []"
      by (rule fsPath_resolved) simp
    ultimately show ?thesis using True T by simp
  next
    case False
    let ?J = "joinWith ''/'' W"
    have J: "?J \<noteq> []" using False W by (rule joinWith_plain_nonempty)
    have p: "joinWith ''/'' T = ?J @ ''/'' @ nm" using False T by (simp add: joinWith_snoc)
    have a: "dropWhile isSlash (rev nm @ CHR ''/'' # rev ?J) = rev nm @ CHR ''/'' # rev ?J"
      using nm1 hdrev by (cases "rev nm") auto
    have "dropWhile (\<lambda>c. \<not> isSlash c) (rev nm @ CHR ''/'' # rev ?J)
          = dropWhile (\<lambda>c. \<not> isSlash c) (CHR ''/'' # rev ?J)"
      by (rule dropWhile_append2) (use nm2 in auto)
    then have b: "dropWhile (\<lambda>c. \<not> isSlash c) (rev nm @ CHR ''/'' # rev ?J) = CHR ''/'' # rev ?J"
      by (simp add: isSlash_def)
    have sl: "isSlash CHR ''/''" by (simp add: isSlash_def)
    have "path_dirname (CHR ''/'' # ?J @ ''/'' @ nm) = CHR ''/'' # ?J"
      using J by (simp add: path_dirname_def Let_def a b sl)
    then show ?thesis using p T fsPath_resolved [OF W] by simp
  qed
qed

lemma strict_prefix_butlast: "strict_prefix a b \<Longrightarrow> prefix a (butlast b)"
  by (metis append_butlast_last_id prefix_order.less_le prefix_snoc strict_prefix_simps(1))

text \<open>An entry that \<^verbatim>\<open>extractZip\<close> does not skip goes below the destination.\<close>

lemma zipTarget_inside:
  assumes "startsWith (fs_cwd fs) ''/''" and "zipTarget (fs_cwd fs) destDir ep = Some t"
  shows "strict_prefix (fsPath fs destDir) (fsPath fs t)"
    and "prefix (fsPath fs destDir) (fsPath fs (path_dirname t))"
proof -
  let ?rel = "stripLeadingSlashes ep"
  let ?T = "fst (resolveSegs (fs_cwd fs) [destDir, ?rel])"
  let ?D = "fst (resolveSegs (fs_cwd fs) [destDir])"
  have T: "list_all plainSeg ?T" and D: "list_all plainSeg ?D"
    using resolveSegs_plain(2) [OF assms(1)] by blast+
  have tp: "path_resolve (fs_cwd fs) [destDir, ?rel] = CHR ''/'' # joinWith ''/'' ?T"
    using resolveSegs_plain(1) [OF assms(1), of "[destDir, ?rel]"]
    by (simp add: path_resolve_def case_prod_beta)
  have dp: "path_resolve (fs_cwd fs) [destDir] = CHR ''/'' # joinWith ''/'' ?D"
    using resolveSegs_plain(1) [OF assms(1), of "[destDir]"]
    by (simp add: path_resolve_def case_prod_beta)
  from assms(2) have t: "t = CHR ''/'' # joinWith ''/'' ?T"
    and sw: "startsWith (CHR ''/'' # joinWith ''/'' ?T) ((CHR ''/'' # joinWith ''/'' ?D) @ ''/'')"
    unfolding zipTarget_def Let_def tp dp by (auto split: if_splits)
  from sw have "prefix (joinWith ''/'' ?D @ ''/'') (joinWith ''/'' ?T)"
    by (auto simp: startsWith_iff prefix_def)
  with D T have sp: "strict_prefix ?D ?T" by (rule prefix_segments)
  have ft: "fsPath fs t = ?T" unfolding t using T by (rule fsPath_resolved)
  have fd: "fsPath fs destDir = ?D" by (simp add: fsPath_def)
  show "strict_prefix (fsPath fs destDir) (fsPath fs t)" using sp ft fd by simp
  have "?T \<noteq> []" using sp by auto
  with T have "fsPath fs (path_dirname t) = butlast ?T" unfolding t by (rule fsPath_dirname_resolved)
  then show "prefix (fsPath fs destDir) (fsPath fs (path_dirname t))"
    using sp fd strict_prefix_butlast by simp
qed

subsection \<open>What making directories and writing files leave alone\<close>

lemma mkdirp_frame:
  "mkdirp n X = Inr n' \<Longrightarrow> \<not> prefix q X \<Longrightarrow> kindAt n' q = kindAt n q"
proof (induction X arbitrary: n n' q)
  case Nil
  then show ?case by (cases n) auto
next
  case (Cons s ss)
  from Cons.prems(1) obtain es where n: "n = Dir es" by (cases n) auto
  define ch0 where "ch0 = (case map_of es s of None \<Rightarrow> Dir [] | Some ch \<Rightarrow> ch)"
  from Cons.prems(1) n obtain ch' where ch': "mkdirp ch0 ss = Inr ch'"
      and n': "n' = Dir (setEntry s ch' es)"
    by (auto simp: ch0_def split: sum.splits)
  from Cons.prems(2) obtain t ts where q: "q = t # ts" by (cases q) auto
  show ?case
  proof (cases "t = s")
    case False
    then show ?thesis using n n' q by (simp add: kindAt_def map_of_setEntry)
  next
    case True
    then have np: "\<not> prefix ts ss" using Cons.prems(2) q by simp
    then have tsne: "ts \<noteq> []" by auto
    have "kindAt ch' ts = kindAt ch0 ts" using ch' np by (rule Cons.IH)
    moreover have "kindAt n' q = kindAt ch' ts"
      using n' q True by (simp add: kindAt_def map_of_setEntry)
    moreover have "kindAt n q = kindAt ch0 ts"
    proof (cases "map_of es s")
      case None
      then have "ch0 = Dir []" by (simp add: ch0_def)
      moreover obtain a b where "ts = a # b" using tsne by (cases ts) auto
      ultimately show ?thesis using n q True None by (simp add: kindAt_def)
    next
      case (Some ch)
      then show ?thesis using n q True by (simp add: kindAt_def ch0_def)
    qed
    ultimately show ?thesis by simp
  qed
qed

lemma putPath_frame:
  "putPath n T new = Some n' \<Longrightarrow> \<not> prefix q T \<Longrightarrow> \<not> prefix T q \<Longrightarrow>
   kindAt n' q = kindAt n q"
proof (induction T arbitrary: n n' q)
  case Nil
  then show ?case by simp
next
  case (Cons s ss)
  from Cons.prems(1) obtain es where n: "n = Dir es" by (cases n) auto
  from Cons.prems(2) obtain t ts where q: "q = t # ts" by (cases q) auto
  show ?case
  proof (cases "t = s")
    case False
    from Cons.prems(1) n obtain c2 where "n' = Dir (setEntry s c2 es)"
      by (auto split: option.splits if_splits)
    then show ?thesis using False n q by (simp add: kindAt_def map_of_setEntry)
  next
    case True
    then have ssne: "ss \<noteq> []" using Cons.prems(3) q by auto
    then obtain c0 c2 where c0: "map_of es s = Some c0" "putPath c0 ss new = Some c2"
        and n': "n' = Dir (setEntry s c2 es)"
      using Cons.prems(1) n by (auto split: option.splits)
    have "\<not> prefix ts ss" "\<not> prefix ss ts" using Cons.prems(2,3) q True by simp_all
    with c0(2) have "kindAt c2 ts = kindAt c0 ts" by (rule Cons.IH)
    then show ?thesis using n n' q True c0 by (simp add: kindAt_def map_of_setEntry)
  qed
qed

lemma removePath_frame:
  "\<not> prefix z q \<Longrightarrow> kindAt (removePath n z) q = kindAt n q"
proof (induction z arbitrary: n q)
  case Nil
  then show ?case by simp
next
  case (Cons s ss)
  show ?case
  proof (cases n)
    case (File c r)
    then show ?thesis by simp
  next
    case (Dir es)
    show ?thesis
    proof (cases q)
      case Nil
      then show ?thesis using Dir by (auto simp: kindAt_def split: option.splits)
    next
      case q: (Cons t ts)
      show ?thesis
      proof (cases "t = s")
        case False
        then show ?thesis using Dir q
          by (auto simp: kindAt_def map_of_setEntry map_of_delEntry split: option.splits)
      next
        case True
        then have ssne: "ss \<noteq> []" and np: "\<not> prefix ss ts" using Cons.prems q by auto
        show ?thesis
        proof (cases "map_of es s")
          case None
          then show ?thesis using Dir ssne by simp
        next
          case (Some ch)
          have "kindAt (removePath ch ss) ts = kindAt ch ts" using np by (rule Cons.IH)
          then show ?thesis using Dir q True Some ssne
            by (simp add: kindAt_def map_of_setEntry)
        qed
      qed
    qed
  qed
qed

lemma fsPath_cwd: "fs_cwd fs' = fs_cwd fs \<Longrightarrow> fsPath fs' p = fsPath fs p"
  by (simp add: fsPath_def)

lemma mkdirSync_frame:
  assumes "mkdirSync fs p = Inr fs'"
  shows "fs_cwd fs' = fs_cwd fs"
    and "\<not> prefix q (fsPath fs p) \<Longrightarrow> kindAt (fs_root fs') q = kindAt (fs_root fs) q"
proof -
  from assms obtain root' where m: "mkdirp (fs_root fs) (fsPath fs p) = Inr root'"
      and fs': "fs' = fs\<lparr>fs_root := root'\<rparr>"
    by (auto simp: mkdirSync_def split: sum.splits)
  show "fs_cwd fs' = fs_cwd fs" using fs' by simp
  show "\<not> prefix q (fsPath fs p) \<Longrightarrow> kindAt (fs_root fs') q = kindAt (fs_root fs) q"
    using mkdirp_frame [OF m] fs' by simp
qed

lemma writeFile_frame:
  assumes "writeFile fs p content = Inr fs'"
  shows "fs_cwd fs' = fs_cwd fs"
    and "\<not> prefix q (fsPath fs p) \<Longrightarrow> \<not> prefix (fsPath fs p) q \<Longrightarrow>
         kindAt (fs_root fs') q = kindAt (fs_root fs) q"
proof -
  from assms obtain root' where
      m: "putPath (fs_root fs) (fsPath fs p) (File content True) = Some root'"
      and fs': "fs' = fs\<lparr>fs_root := root'\<rparr>"
    by (auto simp: writeFile_def split: option.splits node.splits)
  show "fs_cwd fs' = fs_cwd fs" using fs' by simp
  show "\<not> prefix q (fsPath fs p) \<Longrightarrow> \<not> prefix (fsPath fs p) q \<Longrightarrow>
         kindAt (fs_root fs') q = kindAt (fs_root fs) q"
    using putPath_frame [OF m] fs' by simp
qed

lemma extractEntries_frame:
  assumes "startsWith (fs_cwd fs) ''/''"
      and "\<not> prefix (fsPath fs destDir) q" and "\<not> prefix q (fsPath fs destDir)"
  shows "fs_cwd (fst (extractEntries fs destDir entries)) = fs_cwd fs
       \<and> kindAt (fs_root (fst (extractEntries fs destDir entries))) q = kindAt (fs_root fs) q"
  using assms
proof (induction entries arbitrary: fs)
  case Nil
  then show ?case by simp
next
  case (Cons entry entries)
  show ?case
  proof (cases "ze_isDirectory entry")
    case True
    then show ?thesis using Cons.IH [OF Cons.prems] by simp
  next
    case False
    show ?thesis
    proof (cases "zipTarget (fs_cwd fs) destDir (ze_path entry)")
      case None
      then show ?thesis using False Cons.IH [OF Cons.prems] by simp
    next
      case (Some t)
      note zi = zipTarget_inside [OF Cons.prems(1) Some]
      have nq1: "\<not> prefix q (fsPath fs (path_dirname t))"
        using zi(2) Cons.prems(2,3) by (meson prefix_same_cases)
      have nq2: "\<not> prefix q (fsPath fs t)"
        using zi(1) Cons.prems(2,3) by (meson prefix_same_cases prefix_order.less_imp_le)
      have nq3: "\<not> prefix (fsPath fs t) q"
        using zi(1) Cons.prems(2) by (meson prefix_order.less_imp_le prefix_order.trans)
      show ?thesis
      proof (cases "mkdirSync fs (path_dirname t)")
        case (Inl e)
        then show ?thesis using False Some by simp
      next
        case (Inr fs1)
        note f1 = mkdirSync_frame [OF Inr]
        have k1: "kindAt (fs_root fs1) q = kindAt (fs_root fs) q" using f1(2) nq1 by simp
        have p1: "fsPath fs1 t = fsPath fs t" using f1(1) by (rule fsPath_cwd)
        show ?thesis
        proof (cases "writeFile fs1 t (ze_data entry)")
          case (Inl e)
          then show ?thesis using False Some Inr k1 f1(1) by simp
        next
          case fs2: (Inr fs2)
          note f2 = writeFile_frame [OF fs2]
          have c2: "fs_cwd fs2 = fs_cwd fs" using f2(1) f1(1) by simp
          have k2: "kindAt (fs_root fs2) q = kindAt (fs_root fs) q"
            using f2(2) [of q] nq2 nq3 p1 k1 by simp
          have d2: "fsPath fs2 destDir = fsPath fs destDir" using c2 by (rule fsPath_cwd)
          have "fs_cwd (fst (extractEntries fs2 destDir entries)) = fs_cwd fs2
              \<and> kindAt (fs_root (fst (extractEntries fs2 destDir entries))) q
                = kindAt (fs_root fs2) q"
            using Cons.prems c2 d2 by (intro Cons.IH) simp_all
          then show ?thesis using False Some Inr fs2 c2 k2 by simp
        qed
      qed
    qed
  qed
qed

lemma setFolder_frame:
  assumes "\<not> prefix (fsPath fs folderPath) q" and "\<not> prefix q (fsPath fs folderPath)"
  shows "fs_cwd (setFolder fs folderPath items) = fs_cwd fs
       \<and> kindAt (fs_root (setFolder fs folderPath items)) q = kindAt (fs_root fs) q"
proof (cases "putPath (fs_root fs) (fsPath fs folderPath) (Dir items)")
  case None
  then show ?thesis by (simp add: setFolder_def)
next
  case (Some root')
  then show ?thesis using putPath_frame [OF Some assms(2,1)] by (simp add: setFolder_def)
qed

lemma flattenSingleFolders_frame:
  assumes "flattenSingleFolders fs folderPath = Inr fs' \<or> flattenSingleFolders fs folderPath = Inl (e, fs')"
      and "\<not> prefix (fsPath fs folderPath) q" and "\<not> prefix q (fsPath fs folderPath)"
  shows "fs_cwd fs' = fs_cwd fs \<and> kindAt (fs_root fs') q = kindAt (fs_root fs) q"
proof -
  from assms(1) have "fs' = fs \<or> (\<exists>items. fs' = setFolder fs folderPath items)"
    by (auto simp: flattenSingleFolders_def split: if_splits sum.splits prod.splits)
  then show ?thesis using setFolder_frame [OF assms(2,3)] by auto
qed

text \<open>
  \<^verbatim>\<open>extractZip\<close> changes nothing outside the destination directory it is given: at every
  path that is not in that directory and does not lead to it there is afterwards what
  there was before, the archive itself apart when it is not kept. This holds for the
  entries of any archive, whatever their names, and also when the extraction throws.
\<close>

lemma extractZip_keeps_outside:
  assumes abs: "startsWith (fs_cwd fs) ''/''"
      and q1: "\<not> prefix (fsPath fs destDir) q" and q2: "\<not> prefix q (fsPath fs destDir)"
      and z: "keepArchives \<or> \<not> prefix (fsPath fs zipPath) q"
  shows "kindAt (fs_root (fst (extractZip env fs zipPath destDir keepArchives))) q
         = kindAt (fs_root fs) q"
proof -
  define r0 where "r0 = (if \<not> existsSync fs destDir then mkdirSync fs destDir else Inr fs)"
  show ?thesis
  proof (cases r0)
    case (Inl e)
    then show ?thesis by (simp add: extractZip_def r0_def [symmetric])
  next
    case (Inr fs1)
    have c1: "fs_cwd fs1 = fs_cwd fs" and k1: "kindAt (fs_root fs1) q = kindAt (fs_root fs) q"
      using Inr mkdirSync_frame [of fs destDir fs1] q2
      by (auto simp: r0_def split: if_splits)
    have d1: "fsPath fs1 destDir = fsPath fs destDir" using c1 by (rule fsPath_cwd)
    show ?thesis
    proof (cases "zipOpen env fs1 zipPath")
      case (Inl e)
      then show ?thesis using Inr k1 by (simp add: extractZip_def r0_def [symmetric])
    next
      case entries: (Inr entries)
      obtain fs2 res where ee: "extractEntries fs1 destDir entries = (fs2, res)"
        by (cases "extractEntries fs1 destDir entries")
      have "fs_cwd (fst (extractEntries fs1 destDir entries)) = fs_cwd fs1
          \<and> kindAt (fs_root (fst (extractEntries fs1 destDir entries))) q
            = kindAt (fs_root fs1) q"
        using abs q1 q2 c1 d1 by (intro extractEntries_frame) simp_all
      then have c2: "fs_cwd fs2 = fs_cwd fs" and k2: "kindAt (fs_root fs2) q = kindAt (fs_root fs) q"
        using ee c1 k1 by simp_all
      have d2: "fsPath fs2 destDir = fsPath fs destDir" using c2 by (rule fsPath_cwd)
      show ?thesis
      proof (cases res)
        case (Some e)
        then show ?thesis using Inr entries ee k2 by (simp add: extractZip_def r0_def [symmetric])
      next
        case None
        show ?thesis
        proof (cases "flattenSingleFolders fs2 destDir")
          case (Inl ef)
          obtain e fs3 where ef: "ef = (e, fs3)" by (cases ef)
          have "fs_cwd fs3 = fs_cwd fs2 \<and> kindAt (fs_root fs3) q = kindAt (fs_root fs2) q"
          proof (rule flattenSingleFolders_frame)
            show "flattenSingleFolders fs2 destDir = Inr fs3
                \<or> flattenSingleFolders fs2 destDir = Inl (e, fs3)" using Inl ef by simp
            show "\<not> prefix (fsPath fs2 destDir) q" unfolding d2 by (rule q1)
            show "\<not> prefix q (fsPath fs2 destDir)" unfolding d2 by (rule q2)
          qed
          then show ?thesis using Inr entries ee None k2 Inl ef
            by (simp add: extractZip_def r0_def [symmetric])
        next
          case fs3: (Inr fs3)
          have "fs_cwd fs3 = fs_cwd fs2 \<and> kindAt (fs_root fs3) q = kindAt (fs_root fs2) q"
          proof (rule flattenSingleFolders_frame)
            show "flattenSingleFolders fs2 destDir = Inr fs3
                \<or> flattenSingleFolders fs2 destDir = Inl (ENOENT, fs3)" using fs3 by simp
            show "\<not> prefix (fsPath fs2 destDir) q" unfolding d2 by (rule q1)
            show "\<not> prefix q (fsPath fs2 destDir)" unfolding d2 by (rule q2)
          qed
          then have c3: "fs_cwd fs3 = fs_cwd fs"
            and k3: "kindAt (fs_root fs3) q = kindAt (fs_root fs) q"
            using c2 k2 by simp_all
          have z3: "fsPath fs3 zipPath = fsPath fs zipPath" using c3 by (rule fsPath_cwd)
          show ?thesis
          proof (cases "walkFiles fs3 destDir")
            case (Inl e)
            then show ?thesis using Inr entries ee None fs3 k3
              by (simp add: extractZip_def r0_def [symmetric])
          next
            case files: (Inr extractedFiles)
            show ?thesis
            proof (cases "\<not> keepArchives \<and> existsSync fs3 zipPath")
              case False
              then show ?thesis using Inr entries ee None fs3 files k3
                by (auto simp: extractZip_def r0_def [symmetric])
            next
              case True
              show ?thesis
              proof (cases "unlinkSync fs3 zipPath")
                case (Inl e)
                then show ?thesis using True Inr entries ee None fs3 files k3
                  by (simp add: extractZip_def r0_def [symmetric])
              next
                case fs4: (Inr fs4)
                then have "fs4 = fs3\<lparr>fs_root := removePath (fs_root fs3) (fsPath fs3 zipPath)\<rparr>"
                  by (auto simp: unlinkSync_def split: option.splits node.splits)
                moreover have "\<not> prefix (fsPath fs3 zipPath) q" using True z z3 by simp
                ultimately have "kindAt (fs_root fs4) q = kindAt (fs_root fs3) q"
                  by (simp add: removePath_frame)
                then show ?thesis using True Inr entries ee None fs3 files fs4 k3
                  by (simp add: extractZip_def r0_def [symmetric])
              qed
            qed
          qed
        qed
      qed
    qed
  qed
qed

subsection \<open>Flattening and the list of extracted files\<close>

lemma putPath_lookup: "putPath n p new = Some n' \<Longrightarrow> lookupPath n' p = Some new"
proof (induction p arbitrary: n n')
  case Nil
  then show ?case by simp
next
  case (Cons s ss)
  from Cons.prems obtain es where n: "n = Dir es" by (cases n) auto
  show ?case
  proof (cases "ss = []")
    case True
    then show ?thesis using Cons.prems n by (auto simp: map_of_setEntry)
  next
    case False
    then obtain c0 c2 where c0: "map_of es s = Some c0" "putPath c0 ss new = Some c2"
        and n': "n' = Dir (setEntry s c2 es)"
      using Cons.prems n by (auto split: option.splits)
    then show ?thesis using Cons.IH [OF c0(2)] by (simp add: map_of_setEntry)
  qed
qed

lemma putPath_defined: "lookupPath n p \<noteq> None \<Longrightarrow> putPath n p new \<noteq> None"
proof (induction p arbitrary: n)
  case Nil
  then show ?case by simp
next
  case (Cons s ss)
  from Cons.prems obtain es ch where n: "n = Dir es" and ch: "map_of es s = Some ch"
      and l: "lookupPath ch ss \<noteq> None"
    by (cases n) (auto split: option.splits)
  from Cons.IH [OF l] obtain c2 where "putPath ch ss new = Some c2" by blast
  then show ?case using n ch by simp
qed

lemma readdirSync_setFolder:
  assumes "readdirSync fs folderPath = Inr items"
  shows "readdirSync (setFolder fs folderPath items') folderPath = Inr items'"
proof -
  have "lookupPath (fs_root fs) (fsPath fs folderPath) \<noteq> None"
    using assms by (auto simp: readdirSync_def split: option.splits)
  then obtain root' where
      pp: "putPath (fs_root fs) (fsPath fs folderPath) (Dir items') = Some root'"
    using putPath_defined by blast
  then have sf: "setFolder fs folderPath items' = fs\<lparr>fs_root := root'\<rparr>"
    by (simp add: setFolder_def)
  have "fsPath (fs\<lparr>fs_root := root'\<rparr>) folderPath = fsPath fs folderPath"
    by (simp add: fsPath_def)
  then show ?thesis using putPath_lookup [OF pp] sf by (simp add: readdirSync_def)
qed

text \<open>
  The flattening against the calls it stands for, on two folders: the renames one after
  the other and the removal of the wrapper give the same file system, and a rename that
  throws leaves the same one behind.
\<close>

lemma flattenSingleFolders_as_renames:
  "flattenSingleFolders
     \<lparr>fs_root = Dir [(''t'', Dir [(''Pack'', Dir [(''a.wav'', File ''a'' True),
                                                (''Sub'', Dir [(''k.wav'', File ''k'' True)]),
                                                (''b.wav'', File ''b'' True)])])],
      fs_cwd = ''/''\<rparr> ''/t''
   = (case renameSync
        \<lparr>fs_root = Dir [(''t'', Dir [(''Pack'', Dir [(''a.wav'', File ''a'' True),
                                                   (''Sub'', Dir [(''k.wav'', File ''k'' True)]),
                                                   (''b.wav'', File ''b'' True)])])],
         fs_cwd = ''/''\<rparr> ''/t/Pack/a.wav'' ''/t/a.wav'' of
        Inl e \<Rightarrow> Inl (e, \<lparr>fs_root = Dir [], fs_cwd = []\<rparr>)
      | Inr f1 \<Rightarrow>
          (case renameSync f1 ''/t/Pack/Sub'' ''/t/Sub'' of
             Inl e \<Rightarrow> Inl (e, f1)
           | Inr f2 \<Rightarrow>
               (case renameSync f2 ''/t/Pack/b.wav'' ''/t/b.wav'' of
                  Inl e \<Rightarrow> Inl (e, f2)
                | Inr f3 \<Rightarrow> Inr (rmSync f3 ''/t/Pack''))))"
  "flattenSingleFolders
     \<lparr>fs_root = Dir [(''t'', Dir [(''Pack'', Dir [(''a.wav'', File ''a'' True),
                                                (''Pack'', Dir [(''k.wav'', File ''k'' True)]),
                                                (''b.wav'', File ''b'' True)])])],
      fs_cwd = ''/''\<rparr> ''/t''
   = (case renameSync
        \<lparr>fs_root = Dir [(''t'', Dir [(''Pack'', Dir [(''a.wav'', File ''a'' True),
                                                   (''Pack'', Dir [(''k.wav'', File ''k'' True)]),
                                                   (''b.wav'', File ''b'' True)])])],
         fs_cwd = ''/''\<rparr> ''/t/Pack/a.wav'' ''/t/a.wav'' of
        Inl e \<Rightarrow> Inl (e, \<lparr>fs_root = Dir [], fs_cwd = []\<rparr>)
      | Inr f1 \<Rightarrow>
          (case renameSync f1 ''/t/Pack/Pack'' ''/t/Pack'' of
             Inl e \<Rightarrow> Inl (e, f1)
           | Inr f2 \<Rightarrow> Inr f2))"
  by code_simp+

lemma flattenItems_settled:
  "flattenItems items = Inr items' \<Longrightarrow>
   \<not> (\<exists>name inner. items' = [(name, Dir inner)] \<and> \<not> isHiddenOrJunk name)"
proof (induction items rule: flattenItems.induct)
  case (1 items)
  show ?case
  proof (cases "\<exists>name inner. items = [(name, Dir inner)] \<and> \<not> isHiddenOrJunk name")
    case True
    then obtain name inner where i: "items = [(name, Dir inner)]" "\<not> isHiddenOrJunk name"
      by blast
    from "1.prems" i have h: "hoistError name inner = None" and f: "flattenItems inner = Inr items'"
      by (subst (asm) flattenItems.simps, simp split: option.splits)+
    show ?thesis using "1.IH" [OF i(1) refl refl refl i(2) h f] .
  next
    case False
    then have "flattenItems items = Inr items"
      by (subst flattenItems.simps) (auto split: list.splits prod.splits node.splits)
    then show ?thesis using "1.prems" False by simp
  qed
qed

lemma flattenItems_wrapIn:
  assumes "\<forall>n\<in>set names. \<not> isHiddenOrJunk n" and "noClash names its"
      and "\<not> (\<exists>name inner. its = [(name, Dir inner)] \<and> \<not> isHiddenOrJunk name)"
  shows "flattenItems (wrapIn names its) = Inr its"
  using assms(1,2)
proof (induction names)
  case Nil
  show ?case using assms(3)
    by (subst flattenItems.simps) (auto split: list.splits prod.splits node.splits)
next
  case (Cons n ns)
  have h: "hoistError n (wrapIn ns its) = None" using Cons.prems(2) by (simp add: hoistError_def)
  have "flattenItems (wrapIn (n # ns) its) = flattenItems (wrapIn ns its)"
    using Cons.prems(1) h by (subst flattenItems.simps) simp
  then show ?case using Cons by simp
qed

subsection \<open>Entries that point out of the scratch directory\<close>

lemma extractListed_files:
  "extractListed env fs destination files out = (fs', Inr extractedFiles) \<Longrightarrow>
   extractedFiles = out @ map (\<lambda>f. path_join [destination, rf_name f])
                            (filter (\<lambda>f. \<not> rf_directory f) files)"
proof (induction files arbitrary: fs out)
  case Nil
  then show ?case by simp
next
  case (Cons f files)
  from Cons.prems obtain fs1 where "env_rarExtract env fs destination f = Inr fs1"
    by (cases "env_rarExtract env fs destination f") auto
  then have "extractListed env fs1 destination files
      (if \<not> rf_directory f then out @ [path_join [destination, rf_name f]] else out)
      = (fs', Inr extractedFiles)"
    using Cons.prems by simp
  then have "extractedFiles
      = (if \<not> rf_directory f then out @ [path_join [destination, rf_name f]] else out)
        @ map (\<lambda>f. path_join [destination, rf_name f]) (filter (\<lambda>f. \<not> rf_directory f) files)"
    by (rule Cons.IH)
  then show ?case by simp
qed

lemma mkdirp_keeps_files:
  "mkdirp n X = Inr n' \<Longrightarrow>
   (lookupPath n' q = Some (File c r)) = (lookupPath n q = Some (File c r))"
proof (induction X arbitrary: n n' q)
  case Nil
  then show ?case by (cases n) auto
next
  case (Cons s ss)
  from Cons.prems obtain es where n: "n = Dir es" by (cases n) auto
  define ch0 where "ch0 = (case map_of es s of None \<Rightarrow> Dir [] | Some ch \<Rightarrow> ch)"
  from Cons.prems n obtain ch' where ch': "mkdirp ch0 ss = Inr ch'"
      and n': "n' = Dir (setEntry s ch' es)"
    by (auto simp: ch0_def split: sum.splits)
  show ?case
  proof (cases q)
    case Nil
    then show ?thesis using n n' by simp
  next
    case q: (Cons t ts)
    show ?thesis
    proof (cases "t = s")
      case False
      then show ?thesis using n n' q by (simp add: map_of_setEntry)
    next
      case True
      have ih: "(lookupPath ch' ts = Some (File c r)) = (lookupPath ch0 ts = Some (File c r))"
        using ch' by (rule Cons.IH)
      have "(lookupPath n q = Some (File c r)) = (lookupPath ch0 ts = Some (File c r))"
      proof (cases "map_of es s")
        case None
        then have "ch0 = Dir []" by (simp add: ch0_def)
        then have "lookupPath ch0 ts \<noteq> Some (File c r)" by (cases ts) auto
        then show ?thesis using n q True None by simp
      next
        case (Some ch)
        then show ?thesis using n q True by (simp add: ch0_def)
      qed
      then show ?thesis using ih n' q True by (simp add: map_of_setEntry)
    qed
  qed
qed

lemma rarOpen_after_mkdirSync:
  assumes "mkdirSync fs d = Inr fs1"
  shows "(rarOpen env fs1 file = Inr files) = (rarOpen env fs file = Inr files)"
proof -
  from assms obtain root' where m: "mkdirp (fs_root fs) (fsPath fs d) = Inr root'"
      and fs1: "fs1 = fs\<lparr>fs_root := root'\<rparr>"
    by (auto simp: mkdirSync_def split: sum.splits)
  have p: "fsPath fs1 file = fsPath fs file" using fs1 by (simp add: fsPath_def)
  have k: "(lookupPath root' (fsPath fs file) = Some (File c r))
         = (lookupPath (fs_root fs) (fsPath fs file) = Some (File c r))" for c r
    using m by (rule mkdirp_keeps_files)
  have "rarOpen env fs' file = Inr files
      \<longleftrightarrow> (\<exists>c. lookupPath (fs_root fs') (fsPath fs' file) = Some (File c True)
                \<and> env_rarOpen env c = Some files)" for fs'
    by (auto simp: rarOpen_def split: option.splits node.splits)
  then show ?thesis using k p fs1 by simp
qed

text \<open>
  \<^verbatim>\<open>extractRarArchive\<close> looks at no name. Whatever the library does with the files, the
  list returned holds, for every file of the archive that is no directory, the name in
  its header joined to the destination, wherever that points.
\<close>

lemma extractRarArchive_returns_every_reported_name:
  assumes "extractRarArchive env fs file destination keepArchive = (fs', Inr extractedFiles)"
  shows "\<exists>files. rarOpen env fs file = Inr files
           \<and> extractedFiles = map (\<lambda>f. path_join [destination, rf_name f])
                                  (filter (\<lambda>f. \<not> rf_directory f) files)"
proof -
  define r0 where "r0 = (if \<not> existsSync fs destination then mkdirSync fs destination else Inr fs)"
  note a = assms [unfolded extractRarArchive_def, folded r0_def]
  from a obtain fs1 where fs1: "r0 = Inr fs1" by (cases r0) auto
  from a fs1 obtain files where op: "rarOpen env fs1 file = Inr files"
    by (cases "rarOpen env fs1 file") auto
  from a fs1 op obtain fs2 where fl: "flattenSingleFoldersRar fs1 destination = Inr fs2"
    by (cases "flattenSingleFoldersRar fs1 destination") auto
  obtain fs3 res where el: "extractListed env fs2 destination files [] = (fs3, res)"
    by (cases "extractListed env fs2 destination files []")
  from a fs1 op fl el have "res = Inr extractedFiles"
    by (cases res) (auto split: if_splits sum.splits)
  then have l: "extractedFiles = map (\<lambda>f. path_join [destination, rf_name f])
                                  (filter (\<lambda>f. \<not> rf_directory f) files)"
    using extractListed_files [of env fs2 destination files "[]" fs3 extractedFiles] el by simp
  have "rarOpen env fs file = Inr files"
  proof (cases "existsSync fs destination")
    case True
    then show ?thesis using fs1 op by (simp add: r0_def)
  next
    case False
    then have "mkdirSync fs destination = Inr fs1" using fs1 by (simp add: r0_def)
    then show ?thesis using op rarOpen_after_mkdirSync by blast
  qed
  with l show ?thesis by blast
qed

text \<open>
  C2 fails on the code for RAR archives: \<^verbatim>\<open>extractRarArchive\<close> has no check like the one
  in \<^verbatim>\<open>extractZip\<close>. The file \<open>../../home/x.wav\<close> of \<open>/s/a.rar\<close>, expanded into
  \<open>/d/_temp_a\<close>, is not dropped: it is extracted, and it comes back as
  \<open>/home/x.wav\<close>, a path outside the scratch directory. The run hands that path to
  \<^verbatim>\<open>categorizeFile\<close>, and the file of that name that was there before the run is moved
  into the destination. The same entry in a ZIP is dropped and the file stays.
\<close>

theorem rar_entry_outside_is_returned_and_organized:
  "snd (extractRarArchive
          (rarOf [\<lparr>rf_name = ''../../home/x.wav'', rf_directory = False, rf_data = ''evil''\<rparr>])
          \<lparr>fs_root = Dir [(''s'', Dir [(''a.rar'', File ''r'' True)]), (''d'', Dir []),
                           (''home'', Dir [(''x.wav'', File ''mine'' True)])],
           fs_cwd = ''/''\<rparr> ''/s/a.rar'' ''/d/_temp_a'' True)
   = Inr [''/home/x.wav'']
   \<and> startOrganizing
       (rarOf [\<lparr>rf_name = ''../../home/x.wav'', rf_directory = False, rf_data = ''evil''\<rparr>])
       plainConfig
       (freshState (Dir [(''s'', Dir [(''a.rar'', File ''r'' True)]), (''d'', Dir []),
                         (''home'', Dir [(''x.wav'', File ''mine'' True)])]))
   = (Inr (Some \<lparr>done_destDir = ''/d'', done_dryRun = False,
                 done_newFiles = [(''/home/x.wav'', ''/d/Miscellaneous/x.wav'')]\<rparr>),
      \<lparr>st_fs = \<lparr>fs_root = Dir [(''s'', Dir [(''a.rar'', File ''r'' True)]),
                                (''d'', Dir [(''Miscellaneous'',
                                              Dir [(''x.wav'', File ''mine'' True)])]),
                                (''home'', Dir [])],
                fs_cwd = ''/''\<rparr>,
       st_map = [],
       st_log = [(StartingProcessing, LWarning), (FoundFiles 1, LInfo),
                 (Extracted ''a.rar'' 1, LWarning),
                 (Placed False True ''x.wav'' ''/d/Miscellaneous/x.wav'' [], LSuccess)],
       st_cancel = None\<rparr>)
   \<and> startOrganizing
       (zipOf [\<lparr>ze_path = ''../../home/x.wav'', ze_isDirectory = False, ze_data = ''evil''\<rparr>])
       plainConfig
       (freshState (Dir [(''s'', Dir [(''a.zip'', File ''r'' True)]), (''d'', Dir []),
                         (''home'', Dir [(''x.wav'', File ''mine'' True)])]))
   = (Inr (Some \<lparr>done_destDir = ''/d'', done_dryRun = False, done_newFiles = []\<rparr>),
      \<lparr>st_fs = \<lparr>fs_root = Dir [(''s'', Dir [(''a.zip'', File ''r'' True)]), (''d'', Dir []),
                                (''home'', Dir [(''x.wav'', File ''mine'' True)])],
                fs_cwd = ''/''\<rparr>,
       st_map = [],
       st_log = [(StartingProcessing, LWarning), (FoundFiles 1, LInfo),
                 (Extracted ''a.zip'' 0, LWarning), (ExtractorNoList 0, LInfo)],
       st_cancel = None\<rparr>)"
  by code_simp

subsection \<open>Well-formed trees\<close>

lemma set_setEntry: "set (setEntry k v es) \<subseteq> insert (k, v) (set es)"
  by (induction es) auto

lemma keys_setEntry: "set (map fst (setEntry k v es)) = insert k (set (map fst es))"
  by (induction es) auto

lemma distinct_setEntry: "distinct (map fst es) \<Longrightarrow> distinct (map fst (setEntry k v es))"
proof (induction es)
  case Nil
  then show ?case by simp
next
  case (Cons e es)
  show ?case
  proof (cases "fst e = k")
    case True
    then show ?thesis using Cons.prems by simp
  next
    case False
    have "fst e \<notin> set (map fst (setEntry k v es))"
      using False Cons.prems by (simp only: keys_setEntry) auto
    then show ?thesis using False Cons by simp
  qed
qed

lemma wellFormed_setEntry:
  assumes "wellFormed (Dir es)" and "wellFormed ch"
  shows "wellFormed (Dir (setEntry s ch es))"
proof -
  have "list_all (\<lambda>e. wellFormed (snd e)) (setEntry s ch es)"
    using assms set_setEntry [of s ch es] by (auto simp: list_all_iff)
  then show ?thesis using assms(1) by (simp add: distinct_setEntry)
qed

lemma wellFormed_child:
  "wellFormed (Dir es) \<Longrightarrow> map_of es s = Some ch \<Longrightarrow> wellFormed ch"
  by (auto simp: list_all_iff dest: map_of_SomeD)

lemma wellFormed_lookupPath:
  "wellFormed n \<Longrightarrow> lookupPath n p = Some m \<Longrightarrow> wellFormed m"
proof (induction p arbitrary: n)
  case Nil
  then show ?case by simp
next
  case (Cons s ss)
  from Cons.prems(2) obtain es ch where n: "n = Dir es" and ch: "map_of es s = Some ch"
      and l: "lookupPath ch ss = Some m"
    by (cases n) (auto split: option.splits)
  have "wellFormed ch" using Cons.prems(1) n ch wellFormed_child by blast
  then show ?case using l by (rule Cons.IH)
qed

lemma wellFormed_mkdirp:
  "wellFormed n \<Longrightarrow> mkdirp n X = Inr n' \<Longrightarrow> wellFormed n'"
proof (induction X arbitrary: n n')
  case Nil
  then show ?case by (cases n) auto
next
  case (Cons s ss)
  from Cons.prems(2) obtain es where n: "n = Dir es" by (cases n) auto
  define ch0 where "ch0 = (case map_of es s of None \<Rightarrow> Dir [] | Some ch \<Rightarrow> ch)"
  from Cons.prems(2) n obtain ch' where ch': "mkdirp ch0 ss = Inr ch'"
      and n': "n' = Dir (setEntry s ch' es)"
    by (auto simp: ch0_def split: sum.splits)
  have "wellFormed ch0"
    using Cons.prems(1) n wellFormed_child [of es s] by (auto simp: ch0_def split: option.splits)
  then have "wellFormed ch'" using ch' by (rule Cons.IH)
  then show ?case using Cons.prems(1) n n' wellFormed_setEntry by blast
qed

lemma wellFormed_putPath:
  "wellFormed n \<Longrightarrow> wellFormed new \<Longrightarrow> putPath n p new = Some n' \<Longrightarrow> wellFormed n'"
proof (induction p arbitrary: n n')
  case Nil
  then show ?case by simp
next
  case (Cons s ss)
  from Cons.prems(3) obtain es where n: "n = Dir es" by (cases n) auto
  show ?case
  proof (cases "ss = []")
    case True
    then have "n' = Dir (setEntry s new es)" using Cons.prems(3) n by simp
    then show ?thesis using Cons.prems(1,2) n wellFormed_setEntry by blast
  next
    case False
    then obtain c0 c2 where c0: "map_of es s = Some c0" "putPath c0 ss new = Some c2"
        and n': "n' = Dir (setEntry s c2 es)"
      using Cons.prems(3) n by (auto split: option.splits)
    have "wellFormed c0" using Cons.prems(1) n c0(1) wellFormed_child by blast
    then have "wellFormed c2" using Cons.prems(2) c0(2) by (rule Cons.IH)
    then show ?thesis using Cons.prems(1) n n' wellFormed_setEntry by blast
  qed
qed

lemma wellFormed_mkdirSync:
  "wellFormed (fs_root fs) \<Longrightarrow> mkdirSync fs p = Inr fs' \<Longrightarrow> wellFormed (fs_root fs')"
  by (auto simp: mkdirSync_def split: sum.splits dest: wellFormed_mkdirp)

lemma wellFormed_writeFile:
  "wellFormed (fs_root fs) \<Longrightarrow> writeFile fs p content = Inr fs' \<Longrightarrow> wellFormed (fs_root fs')"
proof -
  assume w: "wellFormed (fs_root fs)" and a: "writeFile fs p content = Inr fs'"
  from a obtain root' where
      m: "putPath (fs_root fs) (fsPath fs p) (File content True) = Some root'"
      and fs': "fs' = fs\<lparr>fs_root := root'\<rparr>"
    by (auto simp: writeFile_def split: option.splits node.splits)
  have "wellFormed root'" using w _ m by (rule wellFormed_putPath) simp
  then show ?thesis using fs' by simp
qed

lemma wellFormed_extractEntries:
  "wellFormed (fs_root fs) \<Longrightarrow> wellFormed (fs_root (fst (extractEntries fs destDir entries)))"
proof (induction entries arbitrary: fs)
  case Nil
  then show ?case by simp
next
  case (Cons entry entries)
  show ?case
  proof (cases "ze_isDirectory entry")
    case True
    then show ?thesis using Cons by simp
  next
    case False
    show ?thesis
    proof (cases "zipTarget (fs_cwd fs) destDir (ze_path entry)")
      case None
      then show ?thesis using False Cons by simp
    next
      case (Some t)
      show ?thesis
      proof (cases "mkdirSync fs (path_dirname t)")
        case (Inl e)
        then show ?thesis using False Some Cons.prems by simp
      next
        case (Inr fs1)
        have w1: "wellFormed (fs_root fs1)" using Cons.prems Inr by (rule wellFormed_mkdirSync)
        show ?thesis
        proof (cases "writeFile fs1 t (ze_data entry)")
          case (Inl e)
          then show ?thesis using False Some Inr w1 by simp
        next
          case fs2: (Inr fs2)
          have "wellFormed (fs_root fs2)" using w1 fs2 by (rule wellFormed_writeFile)
          then show ?thesis using False Some Inr fs2 Cons.IH by simp
        qed
      qed
    qed
  qed
qed

lemma wellFormed_flattenItems:
  "wellFormed (Dir items) \<Longrightarrow> flattenItems items = Inr items' \<Longrightarrow> wellFormed (Dir items')"
proof (induction items rule: flattenItems.induct)
  case (1 items)
  show ?case
  proof (cases "\<exists>name inner. items = [(name, Dir inner)] \<and> \<not> isHiddenOrJunk name")
    case True
    then obtain name inner where i: "items = [(name, Dir inner)]" "\<not> isHiddenOrJunk name"
      by blast
    from "1.prems"(2) i have h: "hoistError name inner = None"
      and f: "flattenItems inner = Inr items'"
      by (subst (asm) flattenItems.simps, simp split: option.splits)+
    have w: "wellFormed (Dir inner)" using "1.prems"(1) i by simp
    show ?thesis using "1.IH" [OF i(1) refl refl refl i(2) h w f] .
  next
    case False
    then have "flattenItems items = Inr items"
      by (subst flattenItems.simps) (auto split: list.splits prod.splits node.splits)
    then show ?thesis using "1.prems" by simp
  qed
qed

lemma lookupPath_append:
  "lookupPath n p = Some m \<Longrightarrow> lookupPath n (p @ q) = lookupPath m q"
proof (induction p arbitrary: n)
  case Nil
  then show ?case by simp
next
  case (Cons s ss)
  then show ?case by (cases n) (auto split: option.splits)
qed

subsection \<open>What the walk finds\<close>

lemma pathBelow_Cons: "pathBelow dir (s # ss) = pathBelow (path_join [dir, s]) ss"
  by (simp add: pathBelow_def)

lemma walk_finds:
  "wellFormed (Dir es) \<Longrightarrow>
     set (walkEntries dir es)
       = {pathBelow dir ss | ss c r. ss \<noteq> [] \<and> (\<forall>s\<in>set ss. \<not> isHiddenOrJunk s)
                                   \<and> lookupPath (Dir es) ss = Some (File c r)}"
  "wellFormed n \<Longrightarrow>
     set (walkNode full n)
       = {pathBelow full ss | ss c r. (\<forall>s\<in>set ss. \<not> isHiddenOrJunk s)
                                    \<and> lookupPath n ss = Some (File c r)}"
proof (induction dir es and full n rule: walkEntries_walkNode.induct)
  case (1 dir)
  have "lookupPath (Dir []) ss \<noteq> Some (File c r)" if "ss \<noteq> []" for ss c r
    using that by (cases ss) auto
  then show ?case by auto
next
  case (2 dir e es)
  let ?R = "{pathBelow dir ss | ss c r. ss \<noteq> [] \<and> (\<forall>s\<in>set ss. \<not> isHiddenOrJunk s)
                                   \<and> lookupPath (Dir es) ss = Some (File c r)}"
  let ?H = "{pathBelow (path_join [dir, fst e]) ss | ss c r. (\<forall>s\<in>set ss. \<not> isHiddenOrJunk s)
                                    \<and> lookupPath (snd e) ss = Some (File c r)}"
  let ?A = "{pathBelow dir ss | ss c r. ss \<noteq> [] \<and> (\<forall>s\<in>set ss. \<not> isHiddenOrJunk s)
                                   \<and> lookupPath (Dir (e # es)) ss = Some (File c r)}"
  have wes: "wellFormed (Dir es)" and we: "wellFormed (snd e)"
    and ne: "fst e \<notin> set (map fst es)"
    using "2.prems" by simp_all
  have absent: "map_of es (fst e) = None" using ne by (simp add: map_of_eq_None_iff)
  have look: "lookupPath (Dir (e # es)) (s # ss)
      = (if s = fst e then lookupPath (snd e) ss else lookupPath (Dir es) (s # ss))" for s ss
    by (cases e) auto
  have noR: "lookupPath (Dir es) (fst e # ss) = None" for ss using absent by simp
  have split: "?A = (if isHiddenOrJunk (fst e) then {} else ?H) \<union> ?R"
  proof (intro set_eqI iffI)
    fix p assume "p \<in> ?A"
    then obtain ss c r where p: "p = pathBelow dir ss" and ss: "ss \<noteq> []"
        and v: "\<forall>s\<in>set ss. \<not> isHiddenOrJunk s"
        and l: "lookupPath (Dir (e # es)) ss = Some (File c r)" by blast
    from ss obtain s ss' where c: "ss = s # ss'" by (cases ss) auto
    show "p \<in> (if isHiddenOrJunk (fst e) then {} else ?H) \<union> ?R"
    proof (cases "s = fst e")
      case True
      then have vis: "\<not> isHiddenOrJunk (fst e)" using v c by simp
      have "lookupPath (snd e) ss' = Some (File c r)" using l c True look by simp
      moreover have "p = pathBelow (path_join [dir, fst e]) ss'"
        using p c True by (simp add: pathBelow_Cons)
      moreover have "\<forall>s\<in>set ss'. \<not> isHiddenOrJunk s" using v c by simp
      ultimately have "p \<in> ?H" by blast
      then show ?thesis using vis by simp
    next
      case False
      then have "lookupPath (Dir es) ss = Some (File c r)" using l c look by simp
      then have "p \<in> ?R" using p ss v by blast
      then show ?thesis by simp
    qed
  next
    fix p assume a: "p \<in> (if isHiddenOrJunk (fst e) then {} else ?H) \<union> ?R"
    show "p \<in> ?A"
    proof (cases "p \<in> ?R")
      case True
      then obtain ss c r where p: "p = pathBelow dir ss" and ss: "ss \<noteq> []"
          and v: "\<forall>s\<in>set ss. \<not> isHiddenOrJunk s"
          and l: "lookupPath (Dir es) ss = Some (File c r)" by blast
      from ss obtain s ss' where c: "ss = s # ss'" by (cases ss) auto
      have "s \<noteq> fst e" using l c noR by auto
      then have "lookupPath (Dir (e # es)) ss = Some (File c r)" using l c look by simp
      then show ?thesis using p ss v by blast
    next
      case False
      then have vis: "\<not> isHiddenOrJunk (fst e)" and "p \<in> ?H" using a by (auto split: if_splits)
      then obtain ss c r where p: "p = pathBelow (path_join [dir, fst e]) ss"
          and v: "\<forall>s\<in>set ss. \<not> isHiddenOrJunk s"
          and l: "lookupPath (snd e) ss = Some (File c r)" by blast
      have "p = pathBelow dir (fst e # ss)" using p by (simp add: pathBelow_Cons)
      moreover have "lookupPath (Dir (e # es)) (fst e # ss) = Some (File c r)"
        using l look by simp
      moreover have "\<forall>s\<in>set (fst e # ss). \<not> isHiddenOrJunk s" using v vis by simp
      ultimately show ?thesis by blast
    qed
  qed
  show ?case
  proof (cases "isHiddenOrJunk (fst e)")
    case True
    then show ?thesis using "2.IH"(1) [OF True wes] split by simp
  next
    case False
    then show ?thesis using "2.IH"(2) [OF False we] "2.IH"(3) [OF False wes] split by simp
  qed
next
  case (3 full c r)
  have "lookupPath (File c r) ss = Some (File c' r') \<longleftrightarrow> ss = [] \<and> c' = c \<and> r' = r"
    for ss c' r' by (cases ss) auto
  then show ?case by (auto simp: pathBelow_def)
next
  case (4 full es)
  have "lookupPath (Dir es) [] \<noteq> Some (File c r)" for c r by simp
  then have "{pathBelow full ss | ss c r. (\<forall>s\<in>set ss. \<not> isHiddenOrJunk s)
                                    \<and> lookupPath (Dir es) ss = Some (File c r)}
      = {pathBelow full ss | ss c r. ss \<noteq> [] \<and> (\<forall>s\<in>set ss. \<not> isHiddenOrJunk s)
                                    \<and> lookupPath (Dir es) ss = Some (File c r)}"
    by (intro Collect_cong) (metis lookupPath.simps(1))
  then show ?case using "4.IH" [OF "4.prems"] by simp
qed

text \<open>
  C5 as stated fails. In \<^verbatim>\<open>extractZip\<close> a hidden or junk entry beside the single folder
  keeps the wrapper, because the loop of \<^verbatim>\<open>flattenSingleFolders\<close> counts every entry:
  with \<open>.DS_Store\<close> and \<open>Pack/kick.wav\<close> in the archive, the only visible content of the
  scratch directory is the folder \<open>Pack\<close>, and it is not collapsed.
\<close>

theorem zip_wrapper_stays_beside_junk:
  "extractZip (zipOf [\<lparr>ze_path = ''.DS_Store'', ze_isDirectory = False, ze_data = ''j''\<rparr>,
                      \<lparr>ze_path = ''Pack/kick.wav'', ze_isDirectory = False, ze_data = ''k''\<rparr>])
     \<lparr>fs_root = Dir [(''s'', Dir [(''a.zip'', File ''r'' True)]), (''d'', Dir [])],
      fs_cwd = ''/''\<rparr> ''/s/a.zip'' ''/d/_temp_a'' True
   = (\<lparr>fs_root = Dir [(''s'', Dir [(''a.zip'', File ''r'' True)]),
                       (''d'', Dir [(''_temp_a'',
                                     Dir [(''.DS_Store'', File ''j'' True),
                                          (''Pack'', Dir [(''kick.wav'', File ''k'' True)])])])],
       fs_cwd = ''/''\<rparr>,
      Inr [''/d/_temp_a/Pack/kick.wav''])"
  by code_simp

text \<open>A folder that holds an entry of its own name cannot be unwrapped: the rename throws.\<close>

lemma zip_wrapper_of_same_name_throws:
  "snd (extractZip (zipOf [\<lparr>ze_path = ''Pack/Pack/kick.wav'', ze_isDirectory = False,
                            ze_data = ''k''\<rparr>])
     \<lparr>fs_root = Dir [(''s'', Dir [(''a.zip'', File ''r'' True)]), (''d'', Dir [])],
      fs_cwd = ''/''\<rparr> ''/s/a.zip'' ''/d/_temp_a'' True) = Inl ENOTEMPTY"
  by code_simp

text \<open>
  For a RAR the flattening comes before the library has written anything, so a wrapper
  in the archive stays, and the list is made of the names in the headers, hidden ones
  too: it is no walk of the scratch directory.
\<close>

lemma rar_wrapper_stays:
  "extractRarArchive
     (rarOf [\<lparr>rf_name = ''Pack'', rf_directory = True, rf_data = []\<rparr>,
             \<lparr>rf_name = ''Pack/.DS_Store'', rf_directory = False, rf_data = ''j''\<rparr>,
             \<lparr>rf_name = ''Pack/kick.wav'', rf_directory = False, rf_data = ''k''\<rparr>])
     \<lparr>fs_root = Dir [(''d'', Dir []), (''s'', Dir [(''a.rar'', File ''r'' True)])],
      fs_cwd = ''/''\<rparr> ''/s/a.rar'' ''/d/_temp_a'' True
   = (\<lparr>fs_root = Dir [(''d'', Dir [(''_temp_a'',
                                     Dir [(''Pack'', Dir [(''.DS_Store'', File ''j'' True),
                                                          (''kick.wav'', File ''k'' True)])])]),
                       (''s'', Dir [(''a.rar'', File ''r'' True)])],
       fs_cwd = ''/''\<rparr>,
      Inr [''/d/_temp_a/Pack/.DS_Store'', ''/d/_temp_a/Pack/kick.wav''])"
  by code_simp

text \<open>
  C5, for ZIP archives and a well-formed tree: when \<^verbatim>\<open>extractZip\<close> returns a list, the
  entries of the destination directory after the extraction have been flattened, what
  the flattening leaves is not a single folder that is not hidden, and the list is the
  walk of what it leaves (the archive is deleted only after the walk): a path is in the
  list exactly when it is the path of a file below the destination directory that is
  reached through names that are not hidden or junk. Flattening takes away every level
  of a nest of folders that are not hidden around entries that are not themselves a
  single such folder, provided no folder of the nest holds an entry of its own name.
\<close>

theorem extractZip_flattens_then_walks:
  assumes "extractZip env fs zipPath destDir keepArchives = (fs', Inr files)"
      and "wellFormed (fs_root fs)"
  shows "(\<exists>fs1 entries fs3 items items'.
            (if \<not> existsSync fs destDir then mkdirSync fs destDir else Inr fs) = Inr fs1
          \<and> zipOpen env fs1 zipPath = Inr entries
          \<and> readdirSync (fst (extractEntries fs1 destDir entries)) destDir = Inr items
          \<and> flattenItems items = Inr items'
          \<and> readdirSync fs3 destDir = Inr items'
          \<and> \<not> (\<exists>name inner. items' = [(name, Dir inner)] \<and> \<not> isHiddenOrJunk name)
          \<and> walkFiles fs3 destDir = Inr files
          \<and> (\<forall>p. p \<in> set files \<longleftrightarrow>
                 (\<exists>names c r. names \<noteq> [] \<and> (\<forall>name\<in>set names. \<not> isHiddenOrJunk name)
                    \<and> lookupPath (fs_root fs3) (fsPath fs3 destDir @ names) = Some (File c r)
                    \<and> p = pathBelow destDir names))
          \<and> (fs' = fs3 \<or> (\<not> keepArchives \<and> unlinkSync fs3 zipPath = Inr fs')))
       \<and> (\<forall>names its.
            (\<forall>n\<in>set names. \<not> isHiddenOrJunk n) \<and> noClash names its
            \<and> \<not> (\<exists>name inner. its = [(name, Dir inner)] \<and> \<not> isHiddenOrJunk name)
            \<longrightarrow> flattenItems (wrapIn names its) = Inr its)"
proof
  define r0 where "r0 = (if \<not> existsSync fs destDir then mkdirSync fs destDir else Inr fs)"
  note a = assms(1) [unfolded extractZip_def, folded r0_def]
  from a obtain fs1 where fs1: "r0 = Inr fs1" by (cases r0) auto
  have w1: "wellFormed (fs_root fs1)"
    using fs1 assms(2) wellFormed_mkdirSync [of fs destDir fs1]
    by (auto simp: r0_def split: if_splits)
  from a fs1 obtain entries where en: "zipOpen env fs1 zipPath = Inr entries"
    by (cases "zipOpen env fs1 zipPath") auto
  obtain fs2 res where ee: "extractEntries fs1 destDir entries = (fs2, res)"
    by (cases "extractEntries fs1 destDir entries")
  have w2: "wellFormed (fs_root fs2)"
    using wellFormed_extractEntries [OF w1, of destDir entries] ee by simp
  from a fs1 en ee have res: "res = None" by (cases res) auto
  from a fs1 en ee res obtain fs3 where fl: "flattenSingleFolders fs2 destDir = Inr fs3"
    by (cases "flattenSingleFolders fs2 destDir") auto
  from a fs1 en ee res fl have wf: "walkFiles fs3 destDir = Inr files"
    by (cases "walkFiles fs3 destDir") (auto split: if_splits sum.splits)
  from a fs1 en ee res fl wf
  have fin: "fs' = fs3 \<or> (\<not> keepArchives \<and> unlinkSync fs3 zipPath = Inr fs')"
    by (auto split: if_splits sum.splits)
  have ex: "existsSync fs2 destDir"
  proof (rule ccontr)
    assume "\<not> existsSync fs2 destDir"
    then have "fs3 = fs2" and "lookupPath (fs_root fs2) (fsPath fs2 destDir) = None"
      using fl by (simp_all add: flattenSingleFolders_def existsSync_def)
    then show False using wf by (simp add: walkFiles_def readdirSync_def)
  qed
  from fl ex obtain items items' where
      rd: "readdirSync fs2 destDir = Inr items" and fi: "flattenItems items = Inr items'"
      and f3: "fs3 = setFolder fs2 destDir items'"
    by (auto simp: flattenSingleFolders_def split: sum.splits prod.splits)
  have rd3: "readdirSync fs3 destDir = Inr items'"
    unfolding f3 using rd by (rule readdirSync_setFolder)
  then have fw: "files = walkEntries destDir items'" using wf by (simp add: walkFiles_def)
  have st: "\<not> (\<exists>name inner. items' = [(name, Dir inner)] \<and> \<not> isHiddenOrJunk name)"
    using fi by (rule flattenItems_settled)
  have l2: "lookupPath (fs_root fs2) (fsPath fs2 destDir) = Some (Dir items)"
    using rd by (auto simp: readdirSync_def split: option.splits node.splits)
  have "wellFormed (Dir items)" using w2 l2 by (rule wellFormed_lookupPath)
  then have wi: "wellFormed (Dir items')" using fi by (rule wellFormed_flattenItems)
  have l3: "lookupPath (fs_root fs3) (fsPath fs3 destDir) = Some (Dir items')"
    using rd3 by (auto simp: readdirSync_def split: option.splits node.splits)
  have mem: "\<forall>p. p \<in> set files \<longleftrightarrow>
                 (\<exists>names c r. names \<noteq> [] \<and> (\<forall>name\<in>set names. \<not> isHiddenOrJunk name)
                    \<and> lookupPath (fs_root fs3) (fsPath fs3 destDir @ names) = Some (File c r)
                    \<and> p = pathBelow destDir names)"
    unfolding fw walk_finds(1) [OF wi] lookupPath_append [OF l3] by blast
  have "readdirSync (fst (extractEntries fs1 destDir entries)) destDir = Inr items"
    using ee rd by simp
  with fs1 [unfolded r0_def] en fi rd3 st wf mem fin
  show "\<exists>fs1 entries fs3 items items'.
            (if \<not> existsSync fs destDir then mkdirSync fs destDir else Inr fs) = Inr fs1
          \<and> zipOpen env fs1 zipPath = Inr entries
          \<and> readdirSync (fst (extractEntries fs1 destDir entries)) destDir = Inr items
          \<and> flattenItems items = Inr items'
          \<and> readdirSync fs3 destDir = Inr items'
          \<and> \<not> (\<exists>name inner. items' = [(name, Dir inner)] \<and> \<not> isHiddenOrJunk name)
          \<and> walkFiles fs3 destDir = Inr files
          \<and> (\<forall>p. p \<in> set files \<longleftrightarrow>
                 (\<exists>names c r. names \<noteq> [] \<and> (\<forall>name\<in>set names. \<not> isHiddenOrJunk name)
                    \<and> lookupPath (fs_root fs3) (fsPath fs3 destDir @ names) = Some (File c r)
                    \<and> p = pathBelow destDir names))
          \<and> (fs' = fs3 \<or> (\<not> keepArchives \<and> unlinkSync fs3 zipPath = Inr fs'))"
    by blast
next
  show "\<forall>names its.
            (\<forall>n\<in>set names. \<not> isHiddenOrJunk n) \<and> noClash names its
            \<and> \<not> (\<exists>name inner. its = [(name, Dir inner)] \<and> \<not> isHiddenOrJunk name)
            \<longrightarrow> flattenItems (wrapIn names its) = Inr its"
    using flattenItems_wrapIn by blast
qed

text \<open>
  The theorem at work: an archive with \<open>Pack/Sub/.hidden\<close>, \<open>Pack/Sub/a.wav\<close> and
  \<open>Pack/Sub/b/c.wav\<close>. Both wrappers go, and the two samples are returned: \<open>a.wav\<close> and
  \<open>b/c.wav\<close> are in the list, \<open>.hidden\<close> is not.
\<close>

theorem extractZip_flattens_then_walks_witness:
  "extractZip (zipOf [\<lparr>ze_path = ''Pack/Sub/.hidden'', ze_isDirectory = False, ze_data = ''h''\<rparr>,
                      \<lparr>ze_path = ''Pack/Sub/a.wav'', ze_isDirectory = False, ze_data = ''a''\<rparr>,
                      \<lparr>ze_path = ''Pack/Sub/b/c.wav'', ze_isDirectory = False,
                        ze_data = ''c''\<rparr>])
     \<lparr>fs_root = Dir [(''d'', Dir []), (''s'', Dir [(''a.zip'', File ''r'' True)])],
      fs_cwd = ''/''\<rparr> ''/s/a.zip'' ''/d/_temp_a'' False
   = (\<lparr>fs_root = Dir [(''d'', Dir [(''_temp_a'',
                                     Dir [(''.hidden'', File ''h'' True),
                                          (''a.wav'', File ''a'' True),
                                          (''b'', Dir [(''c.wav'', File ''c'' True)])])]),
                       (''s'', Dir [])],
       fs_cwd = ''/''\<rparr>,
      Inr [''/d/_temp_a/a.wav'', ''/d/_temp_a/b/c.wav''])
   \<and> wellFormed (Dir [(''d'', Dir []), (''s'', Dir [(''a.zip'', File ''r'' True)])])
   \<and> (\<exists>fs3 names c r.
          walkFiles fs3 ''/d/_temp_a'' = Inr [''/d/_temp_a/a.wav'', ''/d/_temp_a/b/c.wav'']
        \<and> names \<noteq> []
        \<and> lookupPath (fs_root fs3) (fsPath fs3 ''/d/_temp_a'' @ names) = Some (File c r)
        \<and> ''/d/_temp_a/b/c.wav'' = pathBelow ''/d/_temp_a'' names)
   \<and> flattenItems (wrapIn [''Pack'', ''Sub'']
        [(''.hidden'', File ''h'' True), (''a.wav'', File ''a'' True),
         (''b'', Dir [(''c.wav'', File ''c'' True)])])
     = Inr [(''.hidden'', File ''h'' True), (''a.wav'', File ''a'' True),
            (''b'', Dir [(''c.wav'', File ''c'' True)])]"
proof -
  let ?env = "zipOf [\<lparr>ze_path = ''Pack/Sub/.hidden'', ze_isDirectory = False, ze_data = ''h''\<rparr>,
                      \<lparr>ze_path = ''Pack/Sub/a.wav'', ze_isDirectory = False, ze_data = ''a''\<rparr>,
                      \<lparr>ze_path = ''Pack/Sub/b/c.wav'', ze_isDirectory = False,
                        ze_data = ''c''\<rparr>]"
  let ?fs = "\<lparr>fs_root = Dir [(''d'', Dir []), (''s'', Dir [(''a.zip'', File ''r'' True)])],
      fs_cwd = ''/''\<rparr>"
  let ?fs' = "\<lparr>fs_root = Dir [(''d'', Dir [(''_temp_a'',
                                     Dir [(''.hidden'', File ''h'' True),
                                          (''a.wav'', File ''a'' True),
                                          (''b'', Dir [(''c.wav'', File ''c'' True)])])]),
                       (''s'', Dir [])],
       fs_cwd = ''/''\<rparr>"
  let ?its = "[(''.hidden'', File ''h'' True), (''a.wav'', File ''a'' True),
         (''b'', Dir [(''c.wav'', File ''c'' True)])]"
  let ?files = "[''/d/_temp_a/a.wav'', ''/d/_temp_a/b/c.wav'']"
  have e: "extractZip ?env ?fs ''/s/a.zip'' ''/d/_temp_a'' False = (?fs', Inr ?files)"
    by code_simp
  have w: "wellFormed (Dir [(''d'', Dir []), (''s'', Dir [(''a.zip'', File ''r'' True)])])"
    by simp
  have w': "wellFormed (fs_root ?fs)" using w by simp
  note t = extractZip_flattens_then_walks [OF e w']
  have h1: "\<forall>n\<in>set [''Pack'', ''Sub'']. \<not> isHiddenOrJunk n" by code_simp
  have h2: "noClash [''Pack'', ''Sub''] ?its" by simp
  have h3: "\<not> (\<exists>name inner. ?its = [(name, Dir inner)] \<and> \<not> isHiddenOrJunk name)" by simp
  from t h1 h2 h3 have fl: "flattenItems (wrapIn [''Pack'', ''Sub''] ?its) = Inr ?its" by blast
  from t obtain fs3 where w3: "walkFiles fs3 ''/d/_temp_a'' = Inr ?files"
      and mem: "\<forall>p. p \<in> set ?files \<longleftrightarrow>
                 (\<exists>names c r. names \<noteq> [] \<and> (\<forall>name\<in>set names. \<not> isHiddenOrJunk name)
                    \<and> lookupPath (fs_root fs3) (fsPath fs3 ''/d/_temp_a'' @ names) = Some (File c r)
                    \<and> p = pathBelow ''/d/_temp_a'' names)"
    by blast
  have "''/d/_temp_a/b/c.wav'' \<in> set ?files" by simp
  with mem obtain names c r where n: "names \<noteq> []"
      and l: "lookupPath (fs_root fs3) (fsPath fs3 ''/d/_temp_a'' @ names) = Some (File c r)"
      and p: "''/d/_temp_a/b/c.wav'' = pathBelow ''/d/_temp_a'' names"
    by blast
  from w3 n l p have x: "\<exists>fs3 names c r.
          walkFiles fs3 ''/d/_temp_a'' = Inr ?files
        \<and> names \<noteq> []
        \<and> lookupPath (fs_root fs3) (fsPath fs3 ''/d/_temp_a'' @ names) = Some (File c r)
        \<and> ''/d/_temp_a/b/c.wav'' = pathBelow ''/d/_temp_a'' names"
    by blast
  from e w x fl show ?thesis by blast
qed

subsection \<open>The folder of the MIDI files\<close>









end
